theory Spec2Isabelle
  imports Complex_Main
begin

section \<open>Values shared by the services\<close>

text \<open>
  JavaScript can throw any value. The code asks of a thrown value whether it is an
  \<open>Error\<close> instance (\<open>err instanceof Error\<close>) and reads its \<open>message\<close> property. So a
  thrown value is an \<open>Error\<close> with its message (a \<open>TypeError\<close> is one), or \<open>null\<close> or
  \<open>undefined\<close> (\<open>Nullish\<close>: reading a property of it throws a \<open>TypeError\<close>), or any other
  value (\<open>NonError\<close>: a string, a number, an object that is no \<open>Error\<close>; its \<open>message\<close>
  reads as \<open>undefined\<close>).
\<close>

datatype thrown = JsError (message: string) | Nullish | NonError

text \<open>
  The \<open>TypeError\<close> the engine throws when \<open>error.message\<close> is evaluated on \<open>null\<close> or
  \<open>undefined\<close>. The wording of its message is the engine's; one wording stands for it.
\<close>

definition message_TypeError :: thrown where
  "message_TypeError = JsError ''Cannot read properties of null or undefined (reading message)''"

text \<open>
  The environment a service runs in. \<open>clock\<close> is the system time in milliseconds, read by
  \<open>new Date()\<close> and advanced by awaiting a \<open>setTimeout\<close>; a timer is taken to fire exactly
  when its delay has passed, and no other work to take time.
\<close>

record env =
  clock :: int

definition sleep :: "nat \<Rightarrow> 'z env_scheme \<Rightarrow> 'z env_scheme" where
  "sleep ms s = s\<lparr>clock := clock s + int ms\<rparr>"

text \<open>Decimal rendering of a number inside a template literal.\<close>

function decimal :: "nat \<Rightarrow> string" where
  "decimal n = (if n < 10 then [''0123456789'' ! n]
                else decimal (n div 10) @ [''0123456789'' ! (n mod 10)])"
  by pat_completeness auto
termination
  by (relation "measure (\<lambda>n. n)") auto

declare decimal.simps [simp del]

section \<open>Backoff executor: \<open>retryWithBackoff\<close> (appwrite.ts, lines 74-101)\<close>

text \<open>
  An operation is an asynchronous thunk: run in a state it either resolves (\<open>Inr\<close>) or
  rejects with a thrown value (\<open>Inl\<close>), and leaves a new state. The executor's console
  lines are kept as a log beside the result: \<open>Attempt n\<close> is written immediately before
  the \<open>n\<close>-th call of the operation, \<open>RetryingIn ms\<close> immediately before the executor
  waits \<open>ms\<close> milliseconds. The \<open>catch\<close> block first logs \<open>error.message\<close>; when the
  operation has rejected with \<open>null\<close> or \<open>undefined\<close> that read throws, and the
  \<open>TypeError\<close> leaves the function from inside the \<open>catch\<close>.
\<close>

datatype log_line = Attempt nat | RetryingIn nat

type_synonym ('a, 's) operation = "'s \<Rightarrow> (thrown + 'a) \<times> 's"

function retry_loop ::
  "('a, 'z env_scheme) operation \<Rightarrow> nat \<Rightarrow> string \<Rightarrow> nat \<Rightarrow> 'z env_scheme
     \<Rightarrow> (thrown + 'a) \<times> log_line list \<times> 'z env_scheme" where
  "retry_loop operation retries operationName i s =
     (if i < retries then
        (case operation s of
           (Inr v, s') \<Rightarrow> (Inr v, [Attempt (i + 1)], s')
         | (Inl error, s') \<Rightarrow>
             (if error = Nullish then (Inl message_TypeError, [Attempt (i + 1)], s')
              else if int i = int retries - 1 then (Inl error, [Attempt (i + 1)], s')
              else
                (case retry_loop operation retries operationName (i + 1)
                        (sleep (1000 * 2 ^ i) s') of
                   (r, lg, s'') \<Rightarrow>
                     (r, Attempt (i + 1) # RetryingIn (1000 * 2 ^ i) # lg, s''))))
      else
        (Inl (JsError (operationName @ '' failed after '' @ decimal retries @ '' attempts'')),
         [], s))"
  by pat_completeness auto
termination
  by (relation "measure (\<lambda>(operation, retries, operationName, i, s). retries - i)") auto

declare retry_loop.simps [simp del]

definition retryWithBackoff ::
  "('a, 'z env_scheme) operation \<Rightarrow> nat \<Rightarrow> string \<Rightarrow> 'z env_scheme
     \<Rightarrow> (thrown + 'a) \<times> log_line list \<times> 'z env_scheme" where
  "retryWithBackoff operation retries operationName s =
     retry_loop operation retries operationName 0 s"

text \<open>Number of times the operation was called, read off the log.\<close>

fun is_Attempt :: "log_line \<Rightarrow> bool" where
  "is_Attempt (Attempt n) = True"
| "is_Attempt (RetryingIn ms) = False"

definition attempts :: "(thrown + 'a) \<times> log_line list \<times> 's \<Rightarrow> nat" where
  "attempts r = length (filter is_Attempt (fst (snd r)))"

definition outcome :: "(thrown + 'a) \<times> log_line list \<times> 's \<Rightarrow> thrown + 'a" where
  "outcome r = fst r"

text \<open>An attempt's result is a rejection with a value other than \<open>null\<close> and \<open>undefined\<close>.\<close>

fun rejected :: "thrown + 'a \<Rightarrow> bool" where
  "rejected (Inl e) = (e \<noteq> Nullish)"
| "rejected (Inr v) = False"

text \<open>
  \<open>after_failures operation i n s\<close> is the state in which the executor makes its next call
  after \<open>n\<close> calls in a row have failed and been retried, the first of them made in state
  \<open>s\<close> with loop index \<open>i\<close>; \<open>nth_result operation n s\<close> is what the operation returns on its \<open>n\<close>-th
  call (counted from 0) when every earlier call has failed.
\<close>

fun after_failures :: "('a, 'z env_scheme) operation \<Rightarrow> nat \<Rightarrow> nat \<Rightarrow> 'z env_scheme \<Rightarrow> 'z env_scheme" where
  "after_failures operation i 0 s = s"
| "after_failures operation i (Suc n) s =
     after_failures operation (Suc i) n (sleep (1000 * 2 ^ i) (snd (operation s)))"

definition nth_result :: "('a, 'z env_scheme) operation \<Rightarrow> nat \<Rightarrow> 'z env_scheme \<Rightarrow> thrown + 'a" where
  "nth_result operation n s = fst (operation (after_failures operation 0 n s))"

text \<open>
  A test operation for concrete runs: it counts its calls, rejects the first \<open>k\<close> of them
  with an \<open>Error\<close> that names the call, and resolves every later call with the call's
  number.
\<close>

record probe = env +
  calls_made :: nat

definition flaky :: "nat \<Rightarrow> (nat, probe) operation" where
  "flaky k s =
     (if calls_made s < k
      then (Inl (JsError (''failure '' @ decimal (calls_made s + 1))), s\<lparr>calls_made := calls_made s + 1\<rparr>)
      else (Inr (calls_made s + 1), s\<lparr>calls_made := calls_made s + 1\<rparr>))"

section \<open>Numbers\<close>

text \<open>
  A count is a JavaScript number, an IEEE 754 double. Counts are integers, so a number
  at run time is either a finite integer-valued double or not finite (\<open>Infinity\<close>, \<open>NaN\<close>).
  \<open>double_of x\<close> is the double nearest to the integer \<open>x\<close>, ties to the even significand,
  as \<open>JSON.parse\<close> and the arithmetic round: every integer up to \<open>2^53\<close> in magnitude is
  a double, beyond that only the multiples of a power of two are, and a magnitude that
  rounds to \<open>2^1024\<close> is \<open>Infinity\<close>. \<open>js_plus\<close> is \<open>+\<close> on such numbers: the exact sum,
  rounded. \<open>to_json\<close> is what \<open>JSON.stringify\<close> sends for a number: the number, or \<open>null\<close>
  when it is not finite.
\<close>

datatype number = Finite int | NonFinite

function bit_length :: "int \<Rightarrow> nat" where
  "bit_length n = (if n \<le> 0 then 0 else Suc (bit_length (n div 2)))"
  by pat_completeness auto
termination
  by (relation "measure nat") auto

declare bit_length.simps [simp del]

text \<open>The rounding of a magnitude, a non-negative integer.\<close>

definition round_magnitude :: "int \<Rightarrow> int" where
  "round_magnitude n =
     (if n \<le> 2 ^ 53 then n
      else
        (let shift = bit_length n - 53;
             q = n div 2 ^ shift;
             r = n mod 2 ^ shift;
             half = 2 ^ (shift - 1)
         in (if r > half \<or> (r = half \<and> odd q) then q + 1 else q) * 2 ^ shift))"

definition double_of :: "int \<Rightarrow> number" where
  "double_of x =
     (let m = round_magnitude \<bar>x\<bar>
      in if m \<ge> 2 ^ 1024 then NonFinite else Finite (sgn x * m))"

fun js_plus :: "number \<Rightarrow> number \<Rightarrow> number" where
  "js_plus (Finite a) (Finite b) = double_of (a + b)"
| "js_plus NonFinite y = NonFinite"
| "js_plus x NonFinite = NonFinite"

fun to_json :: "number \<Rightarrow> int option" where
  "to_json (Finite n) = Some n"
| "to_json NonFinite = None"

section \<open>The document store the services talk to\<close>

text \<open>
  A stored aggregate, as the code reads and writes it (interface \<open>TrendingMovie\<close>, plus the
  legacy single field \<open>searchTerm\<close> that both \<open>updateSearchCount\<close> and
  \<open>cleanupDuplicateMovies\<close> still read). \<open>doc_id\<close>, \<open>createdAt\<close> and \<open>updatedAt\<close> are the
  store's \<open>$id\<close>, \<open>$createdAt\<close> and \<open>$updatedAt\<close>; identifiers are store-assigned tokens
  (numbers here), timestamps are carried as the milliseconds \<open>new Date(...)\<close> parses them
  to. A field the code guards with \<open>||\<close> is optional.
\<close>

record doc =
  doc_id :: nat
  createdAt :: int
  updatedAt :: "int option"
  searchTerms :: "string list option"
  searchTerm :: "string option"
  lastSearchTerm :: string
  count :: "int option"
  movie_id :: nat
  poster_url :: string
  title :: string
  release_date :: "string option"
  vote_average :: "rat option"
  lastSearched :: int

text \<open>The catalogue's movie summary (interface \<open>Movie\<close>); its fields are prefixed \<open>tmdb_\<close>.\<close>

record Movie =
  tmdb_id :: nat
  tmdb_title :: string
  tmdb_poster_path :: "string option"
  tmdb_release_date :: "string option"
  tmdb_vote_average :: "rat option"

text \<open>
  The store is an external collaborator; the services use four of its calls. What the
  model takes from its contract: a collection is a sequence of documents in the store's
  default listing order; a listing filters by equality on \<open>movie_id\<close>, orders by \<open>count\<close>
  descending (a stable order, an absent count read as 0) and returns at most \<open>limit\<close>
  documents, 25 when no limit is given; an update or delete of an identifier that is not
  in the collection is rejected; a created document gets a fresh identifier and goes to
  the end of the collection; the store stamps \<open>$createdAt\<close> and \<open>$updatedAt\<close>.
  Every call is a network request that can be rejected: \<open>faults\<close> lists, for the calls
  still to come, whether a call is rejected (\<open>Some\<close> of the thrown value) or served
  (\<open>None\<close>, and every call once the list is used up); a rejected call changes nothing
  in the collection.
\<close>

record world = env +
  docs :: "doc list"
  faults :: "thrown option list"
  nextId :: nat

datatype query = Q_equal_movie_id nat | Q_limit nat | Q_orderDesc_count

fun matches :: "doc \<Rightarrow> query \<Rightarrow> bool" where
  "matches d (Q_equal_movie_id m) = (movie_id d = m)"
| "matches d (Q_limit n) = True"
| "matches d Q_orderDesc_count = True"

fun limit_of :: "query list \<Rightarrow> nat" where
  "limit_of [] = 25"
| "limit_of (Q_limit n # qs) = n"
| "limit_of (q # qs) = limit_of qs"

text \<open>
  The store orders by the stored count; an absent count is read as 0.
\<close>

definition stored_count :: "doc \<Rightarrow> int" where
  "stored_count d = (case count d of None \<Rightarrow> 0 | Some c \<Rightarrow> c)"

definition select :: "query list \<Rightarrow> doc list \<Rightarrow> doc list" where
  "select qs ds =
     take (limit_of qs)
       ((if Q_orderDesc_count \<in> set qs then sort_key (\<lambda>d. - stored_count d) else (\<lambda>xs. xs))
          (filter (\<lambda>d. list_all (matches d) qs) ds))"

definition remote_call :: "world \<Rightarrow> thrown option \<times> world" where
  "remote_call w = (case faults w of [] \<Rightarrow> (None, w) | f # fs \<Rightarrow> (f, w\<lparr>faults := fs\<rparr>))"

definition listDocuments :: "query list \<Rightarrow> (doc list, world) operation" where
  "listDocuments qs w =
     (case remote_call w of
        (Some e, w') \<Rightarrow> (Inl e, w')
      | (None, w') \<Rightarrow> (Inr (select qs (docs w')), w'))"

definition not_found :: thrown where
  "not_found = JsError ''Document with the requested ID could not be found.''"

definition updateDocument :: "nat \<Rightarrow> (doc \<Rightarrow> doc) \<Rightarrow> (unit, world) operation" where
  "updateDocument i patch w =
     (case remote_call w of
        (Some e, w') \<Rightarrow> (Inl e, w')
      | (None, w') \<Rightarrow>
          (if i \<in> set (map doc_id (docs w'))
           then (Inr (),
                 w'\<lparr>docs := map (\<lambda>d. if doc_id d = i
                                       then (patch d)\<lparr>updatedAt := Some (clock w')\<rparr> else d)
                                 (docs w')\<rparr>)
           else (Inl not_found, w')))"

definition deleteDocument :: "nat \<Rightarrow> (unit, world) operation" where
  "deleteDocument i w =
     (case remote_call w of
        (Some e, w') \<Rightarrow> (Inl e, w')
      | (None, w') \<Rightarrow>
          (if i \<in> set (map doc_id (docs w'))
           then (Inr (), w'\<lparr>docs := filter (\<lambda>d. doc_id d \<noteq> i) (docs w')\<rparr>)
           else (Inl not_found, w')))"

text \<open>\<open>createDocument\<close> with the identifier \<open>'unique()'\<close>: the store picks the identifier.\<close>

definition createDocument :: "doc \<Rightarrow> (doc, world) operation" where
  "createDocument content w =
     (case remote_call w of
        (Some e, w') \<Rightarrow> (Inl e, w')
      | (None, w') \<Rightarrow>
          (let d = content\<lparr>doc_id := nextId w', createdAt := clock w',
                            updatedAt := Some (clock w')\<rparr>
           in (Inr d, w'\<lparr>docs := docs w' @ [d], nextId := nextId w' + 1\<rparr>)))"

section \<open>Search aggregator: \<open>updateSearchCount\<close> (appwrite.ts, lines 104-170)\<close>

text \<open>
  \<open>doc.searchTerms || (doc.searchTerm ? [doc.searchTerm] : [])\<close>: an array, even an empty
  one, is truthy; the legacy field counts when it is a non-empty string.
\<close>

definition docTerms :: "doc \<Rightarrow> string list" where
  "docTerms d =
     (case searchTerms d of
        Some ts \<Rightarrow> ts
      | None \<Rightarrow> (case searchTerm d of
                   Some t \<Rightarrow> (if t \<noteq> [] then [t] else [])
                 | None \<Rightarrow> []))"

text \<open>
  \<open>doc.count || 0\<close> on a document as the client has parsed it: an absent count and a
  count of 0 give 0, any other count is the double it was parsed to.
\<close>

definition count_or0 :: "doc \<Rightarrow> number" where
  "count_or0 d = (case count d of None \<Rightarrow> Finite 0 | Some c \<Rightarrow> double_of c)"

definition poster_url_of :: "Movie \<Rightarrow> string" where
  "poster_url_of movie =
     (case tmdb_poster_path movie of
        Some p \<Rightarrow> (if p \<noteq> [] then ''https://image.tmdb.org/t/p/w500'' @ p
                   else ''https://placehold.co/500x750/1a1a1a/ffffff.png'')
      | None \<Rightarrow> ''https://placehold.co/500x750/1a1a1a/ffffff.png'')"

text \<open>\<open>x || null\<close> on an optional string and on an optional number.\<close>

definition string_or_null :: "string option \<Rightarrow> string option" where
  "string_or_null x = (case x of Some s \<Rightarrow> (if s \<noteq> [] then Some s else None) | None \<Rightarrow> None)"

definition number_or_null :: "rat option \<Rightarrow> rat option" where
  "number_or_null x = (case x of Some v \<Rightarrow> (if v \<noteq> 0 then Some v else None) | None \<Rightarrow> None)"

text \<open>The thunk handed to the executor: one read of the store, then one write.\<close>

definition upsert :: "string \<Rightarrow> Movie \<Rightarrow> (unit, world) operation" where
  "upsert query movie w =
     (case listDocuments [Q_equal_movie_id (tmdb_id movie)] w of
        (Inl e, w1) \<Rightarrow> (Inl e, w1)
      | (Inr documents, w1) \<Rightarrow>
          (case documents of
             existingDoc # others \<Rightarrow>
               (let currentSearchTerms = docTerms existingDoc;
                    updatedSearchTerms =
                      (if query \<in> set currentSearchTerms then currentSearchTerms
                       else currentSearchTerms @ [query])
                in updateDocument (doc_id existingDoc)
                     (\<lambda>d. d\<lparr>count := to_json (js_plus (count_or0 existingDoc) (Finite 1)),
                            searchTerms := Some updatedSearchTerms,
                            lastSearchTerm := query,
                            lastSearched := clock w1,
                            title := tmdb_title movie,
                            poster_url := poster_url_of movie,
                            release_date := string_or_null (tmdb_release_date movie),
                            vote_average := number_or_null (tmdb_vote_average movie)\<rparr>)
                     w1)
           | [] \<Rightarrow>
               (case createDocument
                       \<lparr>doc_id = 0, createdAt = 0, updatedAt = None,
                        searchTerms = Some [query], searchTerm = None,
                        lastSearchTerm = query, count = Some 1,
                        movie_id = tmdb_id movie, poster_url = poster_url_of movie,
                        title = tmdb_title movie,
                        release_date = string_or_null (tmdb_release_date movie),
                        vote_average = number_or_null (tmdb_vote_average movie),
                        lastSearched = clock w1\<rparr> w1 of
                  (Inl e, w2) \<Rightarrow> (Inl e, w2)
                | (Inr d, w2) \<Rightarrow> (Inr (), w2))))"

definition updateSearchCount ::
  "string \<Rightarrow> Movie \<Rightarrow> world \<Rightarrow> (thrown + unit) \<times> log_line list \<times> world" where
  "updateSearchCount query movie w = retryWithBackoff (upsert query movie) 3 ''UpdateSearchCount'' w"

section \<open>Trend reader: \<open>getTrendingMovies\<close> (appwrite.ts, lines 172-204)\<close>

text \<open>The \<open>reduce\<close> that pushes a document unless one with its \<open>movie_id\<close> is already kept.\<close>

definition uniqueMovies :: "doc list \<Rightarrow> doc list" where
  "uniqueMovies documents =
     foldl (\<lambda>unique movie.
              (case find (\<lambda>m. movie_id m = movie_id movie) unique of
                 None \<Rightarrow> unique @ [movie]
               | Some exists \<Rightarrow> unique))
           [] documents"

definition trendingQuery :: "(doc list, world) operation" where
  "trendingQuery w =
     (case listDocuments [Q_limit 10, Q_orderDesc_count] w of
        (Inl e, w1) \<Rightarrow> (Inl e, w1)
      | (Inr documents, w1) \<Rightarrow> (Inr (take 5 (uniqueMovies documents)), w1))"

text \<open>
  The result is the promise's outcome: \<open>Inr\<close> the fulfilled list, \<open>Inl\<close> a rejection. The
  \<open>catch\<close> around the executor turns its failure into the empty list.
\<close>

definition getTrendingMovies :: "world \<Rightarrow> (thrown + doc list) \<times> world" where
  "getTrendingMovies w =
     (case retryWithBackoff trendingQuery 3 ''GetTrendingMovies'' w of
        (Inr movies, lg, w') \<Rightarrow> (Inr movies, w')
      | (Inl error, lg, w') \<Rightarrow> (Inr [], w'))"

text \<open>
  The spec's words for the de-duplication pass, "keep first occurrence under the store's
  order", as a function of their own, to compare \<open>uniqueMovies\<close> with.
\<close>

fun keep_first_occurrence :: "doc list \<Rightarrow> doc list" where
  "keep_first_occurrence [] = []"
| "keep_first_occurrence (d # ds) =
     d # keep_first_occurrence (filter (\<lambda>x. movie_id x \<noteq> movie_id d) ds)"

section \<open>Duplicate reconciler: \<open>cleanupDuplicateMovies\<close> (appwrite.ts, lines 207-285)\<close>

text \<open>
  \<open>if (!movieGroups[movieId]) movieGroups[movieId] = []; movieGroups[movieId].push(doc)\<close>,
  with \<open>movieGroups\<close> kept in the order in which \<open>Object.entries\<close> enumerates it: the keys
  that are array indices (the integers below \<open>2^32 - 1\<close>) in ascending order, then the
  other keys in the order in which they were created. Inside a group the documents stay
  in listing order.
\<close>

definition array_index :: "nat \<Rightarrow> bool" where
  "array_index k = (int k < 2 ^ 32 - 1)"

fun new_key :: "nat \<Rightarrow> (nat \<times> doc list) list \<Rightarrow> (nat \<times> doc list) list" where
  "new_key m [] = [(m, [])]"
| "new_key m ((k, g) # rest) =
     (if array_index m \<and> (\<not> array_index k \<or> m < k) then (m, []) # (k, g) # rest
      else (k, g) # new_key m rest)"

definition group_push :: "doc \<Rightarrow> (nat \<times> doc list) list \<Rightarrow> (nat \<times> doc list) list" where
  "group_push d movieGroups =
     map (\<lambda>(k, g). if k = movie_id d then (k, g @ [d]) else (k, g))
       (if movie_id d \<in> set (map fst movieGroups) then movieGroups
        else new_key (movie_id d) movieGroups)"

definition movieGroups_of :: "doc list \<Rightarrow> (nat \<times> doc list) list" where
  "movieGroups_of documents = foldl (\<lambda>movieGroups d. group_push d movieGroups) [] documents"

text \<open>\<open>[...new Set(xs)]\<close>: a \<open>Set\<close> keeps each element once, in order of first insertion.\<close>

fun set_add_all :: "'a list \<Rightarrow> 'a list \<Rightarrow> 'a list" where
  "set_add_all kept [] = kept"
| "set_add_all kept (x # xs) = set_add_all (if x \<in> set kept then kept else kept @ [x]) xs"

definition new_Set :: "'a list \<Rightarrow> 'a list" where
  "new_Set xs = set_add_all [] xs"

text \<open>\<open>new Date(d.$updatedAt || d.$createdAt).getTime()\<close>.\<close>

definition doc_time :: "doc \<Rightarrow> int" where
  "doc_time d = (case updatedAt d of Some t \<Rightarrow> t | None \<Rightarrow> createdAt d)"

text \<open>
  \<open>docs.sort((a, b) => time b - time a)\<close>: descending in time; the sort is stable, so
  documents of equal time keep their listing order.
\<close>

definition sortedDocs_of :: "doc list \<Rightarrow> doc list" where
  "sortedDocs_of ds = sort_key (\<lambda>d. - doc_time d) ds"

definition totalCount_of :: "doc list \<Rightarrow> number" where
  "totalCount_of ds = foldl (\<lambda>sum d. js_plus sum (count_or0 d)) (Finite 0) ds"

definition allSearchTerms_of :: "doc list \<Rightarrow> string list" where
  "allSearchTerms_of ds = foldl (\<lambda>terms d. new_Set (terms @ docTerms d)) [] ds"

text \<open>\<open>allSearchTerms[allSearchTerms.length - 1] || ''\<close>.\<close>

definition last_or_empty :: "string list \<Rightarrow> string" where
  "last_or_empty ts = (if ts = [] then [] else if last ts \<noteq> [] then last ts else [])"

fun delete_loop :: "doc list \<Rightarrow> nat \<Rightarrow> world \<Rightarrow> (thrown + nat) \<times> world" where
  "delete_loop [] duplicatesRemoved w = (Inr duplicatesRemoved, w)"
| "delete_loop (d # ds) duplicatesRemoved w =
     (case deleteDocument (doc_id d) w of
        (Inl e, w') \<Rightarrow> (Inl e, w')
      | (Inr u, w') \<Rightarrow> delete_loop ds (duplicatesRemoved + 1) w')"

text \<open>The body of the loop over the groups, for a group of more than one document.\<close>

definition merge_group :: "doc list \<Rightarrow> nat \<times> nat \<Rightarrow> world \<Rightarrow> (thrown + nat \<times> nat) \<times> world" where
  "merge_group ds counters w =
     (let totalCount = totalCount_of ds;
          allSearchTerms = allSearchTerms_of ds;
          sortedDocs = sortedDocs_of ds;
          keepDoc = hd sortedDocs
      in (case updateDocument (doc_id keepDoc)
                 (\<lambda>d. d\<lparr>count := to_json totalCount,
                        searchTerms := Some allSearchTerms,
                        lastSearchTerm := last_or_empty allSearchTerms,
                        lastSearched := clock w\<rparr>) w of
            (Inl e, w1) \<Rightarrow> (Inl e, w1)
          | (Inr u, w1) \<Rightarrow>
              (case delete_loop (tl sortedDocs) (snd counters) w1 of
                 (Inl e, w2) \<Rightarrow> (Inl e, w2)
               | (Inr duplicatesRemoved, w2) \<Rightarrow> (Inr (fst counters + 1, duplicatesRemoved), w2))))"

fun process_groups ::
  "(nat \<times> doc list) list \<Rightarrow> nat \<times> nat \<Rightarrow> world \<Rightarrow> (thrown + nat \<times> nat) \<times> world" where
  "process_groups [] counters w = (Inr counters, w)"
| "process_groups ((movieId, ds) # rest) counters w =
     (if length ds > 1
      then (case merge_group ds counters w of
              (Inl e, w') \<Rightarrow> (Inl e, w')
            | (Inr counters', w') \<Rightarrow> process_groups rest counters' w')
      else process_groups rest counters w)"

text \<open>
  The object the function resolves with; \<open>cleanup_error\<close> is its \<open>error\<close> key, absent on
  success. The \<open>catch\<close> builds the object from \<open>error.message\<close>: the message of an
  \<open>Error\<close>, \<open>undefined\<close> for another value, and for \<open>null\<close> or \<open>undefined\<close> the read
  throws, so that the function rejects with the \<open>TypeError\<close>.
\<close>

record cleanup_result =
  duplicatesFound :: nat
  duplicatesRemoved :: nat
  cleanup_error :: "string option"

fun cleanup_catch :: "thrown \<Rightarrow> thrown + cleanup_result" where
  "cleanup_catch (JsError m) =
     Inr \<lparr>duplicatesFound = 0, duplicatesRemoved = 0, cleanup_error = Some m\<rparr>"
| "cleanup_catch NonError =
     Inr \<lparr>duplicatesFound = 0, duplicatesRemoved = 0, cleanup_error = None\<rparr>"
| "cleanup_catch Nullish = Inl message_TypeError"

definition cleanupDuplicateMovies :: "world \<Rightarrow> (thrown + cleanup_result) \<times> world" where
  "cleanupDuplicateMovies w =
     (case listDocuments [Q_limit 100] w of
        (Inl e, w1) \<Rightarrow> (cleanup_catch e, w1)
      | (Inr documents, w1) \<Rightarrow>
          (case process_groups (movieGroups_of documents) (0, 0) w1 of
             (Inl e, w2) \<Rightarrow> (cleanup_catch e, w2)
           | (Inr (found, removed), w2) \<Rightarrow>
               (Inr \<lparr>duplicatesFound = found, duplicatesRemoved = removed, cleanup_error = None\<rparr>,
                w2)))"

section \<open>Fetch controller: \<open>useFetch\<close> (lines 654-806 of the services file)\<close>

text \<open>
  \<open>UseFetchState\<close> is the hook's React state. \<open>data\<close> is \<open>T | null\<close> and a fetch resolves
  with a \<open>T\<close> that may itself be \<open>null\<close>, so both are options over the non-null results.
  The options \<open>onSuccess\<close> and \<open>onError\<close> are callbacks into the caller; they are left
  undefined, as they are by default, and \<open>retryDelay\<close> only sets how long a delay lasts.
\<close>

record 'a UseFetchState =
  data :: "'a option"
  loading :: bool
  error :: "thrown option"
  isStale :: bool

text \<open>
  One invocation of \<open>fetchData\<close> from outside (by \<open>refetch\<close> or by the auto-fetch effect) is
  an asynchronous activity. It is suspended either at \<open>await fetchFunction()\<close>, holding
  its local \<open>requestId\<close> and \<open>retryCount\<close>, or at the \<open>setTimeout\<close> before a retry, holding
  \<open>retryCount\<close>; or its promise has settled. A retry is the call
  \<open>fetchData(retryCount + 1)\<close> whose promise the first invocation returns, so it stays the
  same activity.
\<close>

datatype 'a invocation =
    AwaitingFetch nat nat
  | AwaitingDelay nat
  | Resolved "'a option"
  | Rejected thrown

text \<open>
  The hook instance: its state, the two refs, and the invocations issued so far in issue
  order (the \<open>n\<close>-th \<open>fetchData()\<close> from outside is invocation \<open>n\<close>, counted from 0).
\<close>

record 'a hook =
  state :: "'a UseFetchState"
  requestIdRef :: nat
  isMountedRef :: bool
  invocations :: "'a invocation list"

definition initial_state :: "'a UseFetchState" where
  "initial_state = \<lparr>data = None, loading = False, error = None, isStale = False\<rparr>"

definition new_hook :: "'a hook" where
  "new_hook = \<lparr>state = initial_state, requestIdRef = 0, isMountedRef = True, invocations = []\<rparr>"

text \<open>
  The head of \<open>fetchData(retryCount)\<close>, up to the \<open>await\<close>: take the next request id, and
  on a first attempt set \<open>loading\<close>. It yields the local \<open>requestId\<close>.
\<close>

definition fetchData_begin :: "nat \<Rightarrow> 'a hook \<Rightarrow> nat \<times> 'a hook" where
  "fetchData_begin retryCount h =
     (let requestId = requestIdRef h + 1;
          h1 = h\<lparr>requestIdRef := requestId\<rparr>
      in (requestId,
          if retryCount = 0
          then h1\<lparr>state := (state h1)\<lparr>loading := True, error := None, isStale := False\<rparr>\<rparr>
          else h1))"

text \<open>\<open>err instanceof Error ? err : new Error('An unknown error occurred')\<close>.\<close>

fun as_Error :: "thrown \<Rightarrow> thrown" where
  "as_Error (JsError m) = JsError m"
| "as_Error Nullish = JsError ''An unknown error occurred''"
| "as_Error NonError = JsError ''An unknown error occurred''"

text \<open>The continuation after \<open>fetchFunction()\<close> has resolved with \<open>result\<close>.\<close>

definition on_result :: "nat \<Rightarrow> nat \<Rightarrow> 'a option \<Rightarrow> 'a hook \<Rightarrow> 'a hook" where
  "on_result c requestId result h =
     (if requestId = requestIdRef h \<and> isMountedRef h
      then h\<lparr>state := (state h)\<lparr>data := result, loading := False, error := None, isStale := False\<rparr>,
             invocations := (invocations h)[c := Resolved result]\<rparr>
      else h\<lparr>invocations := (invocations h)[c := Resolved None]\<rparr>)"

text \<open>The \<open>catch\<close> block, up to its \<open>await\<close> or its \<open>throw\<close>.\<close>

definition on_error :: "nat \<Rightarrow> nat \<Rightarrow> nat \<Rightarrow> nat \<Rightarrow> thrown \<Rightarrow> 'a hook \<Rightarrow> 'a hook" where
  "on_error retries c requestId retryCount err h =
     (let error = as_Error err
      in if retryCount < retries
         then h\<lparr>invocations := (invocations h)[c := AwaitingDelay retryCount]\<rparr>
         else (if requestId = requestIdRef h \<and> isMountedRef h
               then h\<lparr>state := (state h)\<lparr>loading := False, error := Some error,
                                          isStale := (data (state h) \<noteq> None)\<rparr>\<rparr>
               else h)
              \<lparr>invocations := (invocations h)[c := Rejected error]\<rparr>)"

text \<open>
  What can happen to a hook: \<open>fetchData()\<close> is invoked from outside; the fetch awaited by
  invocation \<open>c\<close> resolves or rejects; the retry delay of invocation \<open>c\<close> elapses; the
  component unmounts; \<open>reset\<close> or \<open>markStale\<close> is called. \<open>step\<close> is \<open>None\<close> for an event
  that cannot happen in the given hook (invocation \<open>c\<close> is not suspended there).
\<close>

datatype 'a event =
    Fetch
  | FetchResolves nat "'a option"
  | FetchRejects nat thrown
  | DelayElapses nat
  | Unmount
  | Reset
  | MarkStale

fun step :: "nat \<Rightarrow> 'a event \<Rightarrow> 'a hook \<Rightarrow> 'a hook option" where
  "step retries Fetch h =
     (case fetchData_begin 0 h of
        (requestId, h') \<Rightarrow> Some (h'\<lparr>invocations := invocations h' @ [AwaitingFetch requestId 0]\<rparr>))"
| "step retries (FetchResolves c result) h =
     (if c < length (invocations h)
      then (case invocations h ! c of
              AwaitingFetch requestId retryCount \<Rightarrow> Some (on_result c requestId result h)
            | AwaitingDelay retryCount \<Rightarrow> None
            | Resolved r \<Rightarrow> None
            | Rejected e \<Rightarrow> None)
      else None)"
| "step retries (FetchRejects c err) h =
     (if c < length (invocations h)
      then (case invocations h ! c of
              AwaitingFetch requestId retryCount \<Rightarrow> Some (on_error retries c requestId retryCount err h)
            | AwaitingDelay retryCount \<Rightarrow> None
            | Resolved r \<Rightarrow> None
            | Rejected e \<Rightarrow> None)
      else None)"
| "step retries (DelayElapses c) h =
     (if c < length (invocations h)
      then (case invocations h ! c of
              AwaitingDelay retryCount \<Rightarrow>
                (case fetchData_begin (retryCount + 1) h of
                   (requestId, h') \<Rightarrow>
                     Some (h'\<lparr>invocations :=
                                 (invocations h')[c := AwaitingFetch requestId (retryCount + 1)]\<rparr>))
            | AwaitingFetch requestId retryCount \<Rightarrow> None
            | Resolved r \<Rightarrow> None
            | Rejected e \<Rightarrow> None)
      else None)"
| "step retries Unmount h = Some (h\<lparr>isMountedRef := False\<rparr>)"
| "step retries Reset h = Some (h\<lparr>state := initial_state, requestIdRef := 0\<rparr>)"
| "step retries MarkStale h = Some (h\<lparr>state := (state h)\<lparr>isStale := True\<rparr>\<rparr>)"

fun run :: "nat \<Rightarrow> 'a event list \<Rightarrow> 'a hook \<Rightarrow> 'a hook option" where
  "run retries [] h = Some h"
| "run retries (ev # evs) h =
     (case step retries ev h of None \<Rightarrow> None | Some h' \<Rightarrow> run retries evs h')"

section \<open>Vocabulary for the statements\<close>

text \<open>The next \<open>n\<close> calls to the store are all rejected.\<close>

definition rejects_next :: "nat \<Rightarrow> thrown option list \<Rightarrow> bool" where
  "rejects_next n fs = (n \<le> length fs \<and> list_all (\<lambda>f. f \<noteq> None) (take n fs))"

text \<open>
  An executor with \<open>n\<close> attempts left, each attempt one call to the store, gives up: the
  calls are rejected until either an attempt is rejected with \<open>null\<close> or \<open>undefined\<close>
  or no attempt is left.
\<close>

fun gives_up :: "nat \<Rightarrow> thrown option list \<Rightarrow> bool" where
  "gives_up 0 fs = True"
| "gives_up (Suc n) [] = False"
| "gives_up (Suc n) (None # fs) = False"
| "gives_up (Suc n) (Some e # fs) = (e = Nullish \<or> gives_up n fs)"

text \<open>
  Sample data for concrete runs: a document with identifier \<open>i\<close> for movie \<open>m\<close> with count
  \<open>c\<close>, search terms \<open>ts\<close>, created and last updated at time \<open>t\<close>; a collection with no
  call rejected.
\<close>

definition sample_doc :: "nat \<Rightarrow> nat \<Rightarrow> int \<Rightarrow> string list \<Rightarrow> int \<Rightarrow> doc" where
  "sample_doc i m c ts t =
     \<lparr>doc_id = i, createdAt = t, updatedAt = Some t, searchTerms = Some ts, searchTerm = None,
      lastSearchTerm = last_or_empty ts, count = Some c, movie_id = m, poster_url = [],
      title = [], release_date = None, vote_average = None, lastSearched = t\<rparr>"

definition sample_world :: "doc list \<Rightarrow> thrown option list \<Rightarrow> world" where
  "sample_world ds fs = \<lparr>clock = 5000, docs = ds, faults = fs, nextId = 1000\<rparr>"

definition sample_movie :: "nat \<Rightarrow> Movie" where
  "sample_movie m =
     \<lparr>tmdb_id = m, tmdb_title = ''Batman'', tmdb_poster_path = Some ''/b.jpg'',
      tmdb_release_date = None, tmdb_vote_average = Some 8\<rparr>"

text \<open>
  What a served \<open>updateSearchCount\<close> writes: the update of an existing aggregate \<open>e\<close>, and
  the aggregate it creates, both at time \<open>t\<close>.
\<close>

definition recorded :: "string \<Rightarrow> Movie \<Rightarrow> doc \<Rightarrow> int \<Rightarrow> doc \<Rightarrow> doc" where
  "recorded query movie e t d =
     d\<lparr>count := Some (stored_count e + 1),
       searchTerms := Some (if query \<in> set (docTerms e) then docTerms e else docTerms e @ [query]),
       lastSearchTerm := query,
       lastSearched := t,
       title := tmdb_title movie,
       poster_url := poster_url_of movie,
       release_date := string_or_null (tmdb_release_date movie),
       vote_average := number_or_null (tmdb_vote_average movie),
       updatedAt := Some t\<rparr>"

definition first_record :: "string \<Rightarrow> Movie \<Rightarrow> nat \<Rightarrow> int \<Rightarrow> doc" where
  "first_record query movie i t =
     \<lparr>doc_id = i, createdAt = t, updatedAt = Some t,
      searchTerms = Some [query], searchTerm = None,
      lastSearchTerm = query, count = Some 1,
      movie_id = tmdb_id movie, poster_url = poster_url_of movie,
      title = tmdb_title movie,
      release_date = string_or_null (tmdb_release_date movie),
      vote_average = number_or_null (tmdb_vote_average movie),
      lastSearched = t\<rparr>"

definition after_search :: "string \<Rightarrow> Movie \<Rightarrow> nat \<Rightarrow> int \<Rightarrow> doc list \<Rightarrow> doc list" where
  "after_search query movie i t ds =
     (case filter (\<lambda>d. movie_id d = tmdb_id movie) ds of
        [] \<Rightarrow> ds @ [first_record query movie i t]
      | e # others \<Rightarrow> map (\<lambda>d. if doc_id d = doc_id e then recorded query movie e t d else d) ds)"

text \<open>
  What a served pass of the reconciler does to the collection. \<open>keepDoc_of g\<close> is the
  document of group \<open>g\<close> that is kept; \<open>merged g t d\<close> is \<open>d\<close> with the group's combined data
  written to it at time \<open>t\<close>; \<open>merged_docs g t ds\<close> is the collection \<open>ds\<close> after group \<open>g\<close> has
  been merged, \<open>merged_all gs t ds\<close> after every group of \<open>gs\<close> with more than one document
  has been.
\<close>

definition keepDoc_of :: "doc list \<Rightarrow> doc" where
  "keepDoc_of g = hd (sortedDocs_of g)"

definition merged :: "doc list \<Rightarrow> int \<Rightarrow> doc \<Rightarrow> doc" where
  "merged g t d =
     d\<lparr>count := to_json (totalCount_of g),
       searchTerms := Some (allSearchTerms_of g),
       lastSearchTerm := last_or_empty (allSearchTerms_of g),
       lastSearched := t,
       updatedAt := Some t\<rparr>"

definition merged_docs :: "doc list \<Rightarrow> int \<Rightarrow> doc list \<Rightarrow> doc list" where
  "merged_docs g t ds =
     filter (\<lambda>d. doc_id d \<notin> doc_id ` set (tl (sortedDocs_of g)))
       (map (\<lambda>d. if doc_id d = doc_id (keepDoc_of g) then merged g t d else d) ds)"

fun merged_all :: "(nat \<times> doc list) list \<Rightarrow> int \<Rightarrow> doc list \<Rightarrow> doc list" where
  "merged_all [] t ds = ds"
| "merged_all ((m, g) # rest) t ds =
     merged_all rest t (if length g > 1 then merged_docs g t ds else ds)"

text \<open>The identifiers a pass deletes: all but the kept one of every group it merges.\<close>

fun deleted_ids :: "(nat \<times> doc list) list \<Rightarrow> nat set" where
  "deleted_ids [] = {}"
| "deleted_ids ((m, g) # rest) =
     (if length g > 1 then doc_id ` set (tl (sortedDocs_of g)) else {}) \<union> deleted_ids rest"

text \<open>
  Collections for concrete runs. \<open>spec_example\<close> is the specification's scenario: three
  documents for movie 42 with counts 3, 1, 2. \<open>large_counts\<close> holds two documents for movie
  42 with counts \<open>2^53\<close> and 1. \<open>crowded_twice\<close> holds 101 documents in which documents 0
  and 1 are both for movie 0 and the last one is a second document for movie 2.
\<close>

definition spec_example :: "doc list" where
  "spec_example =
     [sample_doc 1 42 3 [''batman''] 100,
      sample_doc 2 42 1 [''dark knight''] 300,
      sample_doc 3 42 2 [''batman'', ''joker''] 200]"


definition crowded_twice :: "doc list" where
  "crowded_twice =
     map (\<lambda>i. sample_doc i (if i = 1 then 0 else if i = 100 then 2 else i) 1 [] 0) [0..<101]"

text \<open>
  For the fetch controller: the events that are fetch traffic (everything but unmounting
  and \<open>reset\<close>), and what it means that the state shows the outcome of a settled
  invocation.
\<close>

fun fetch_traffic :: "'a event \<Rightarrow> bool" where
  "fetch_traffic Unmount = False"
| "fetch_traffic Reset = False"
| "fetch_traffic ev = True"

fun shows_outcome :: "'a UseFetchState \<Rightarrow> 'a invocation \<Rightarrow> bool" where
  "shows_outcome s (Resolved r) = (data s = r \<and> error s = None)"
| "shows_outcome s (Rejected e) = (error s = Some e)"
| "shows_outcome s (AwaitingFetch requestId retryCount) = True"
| "shows_outcome s (AwaitingDelay retryCount) = True"

fun numbered :: "nat \<Rightarrow> 'a invocation \<Rightarrow> bool" where
  "numbered c (AwaitingFetch requestId retryCount) = (requestId = c + 1)"
| "numbered c (AwaitingDelay retryCount) = False"
| "numbered c (Resolved r) = True"
| "numbered c (Rejected e) = True"

definition in_order :: "'a hook \<Rightarrow> bool" where
  "in_order h =
     (isMountedRef h \<and> requestIdRef h = length (invocations h)
      \<and> list_all (\<lambda>c. numbered c (invocations h ! c)) [0..<length (invocations h)]
      \<and> (invocations h = [] \<or> shows_outcome (state h) (last (invocations h))))"

section \<open>Properties of the backoff executor\<close>

lemma rejected_cases:
  assumes "rejected (fst (operation s))"
  obtains e s' where "operation s = (Inl e, s')" "e \<noteq> Nullish"
  using assms by (cases "operation s"; cases "fst (operation s)") auto


lemma retry_loop_exhausted:
  assumes "i + Suc n = retries"
    and "\<forall>j\<le>n. rejected (fst (operation (after_failures operation i j s)))"
  shows "outcome (retry_loop operation retries name i s) = fst (operation (after_failures operation i n s))
       \<and> attempts (retry_loop operation retries name i s) = n + 1"
  using assms
proof (induction n arbitrary: i s)
  case 0
  then have "rejected (fst (operation s))" by simp
  then obtain e s' where op: "operation s = (Inl e, s')" and e: "e \<noteq> Nullish"
    by (rule rejected_cases)
  have "int i = int retries - 1" "i < retries" using 0(1) by auto
  then show ?case using op e
    by (subst retry_loop.simps, subst (2) retry_loop.simps)
       (auto simp: outcome_def attempts_def)
next
  case (Suc n)
  have "rejected (fst (operation s))" using Suc.prems(2)[rule_format, of 0] by simp
  then obtain e s' where op: "operation s = (Inl e, s')" and e: "e \<noteq> Nullish"
    by (rule rejected_cases)
  let ?s = "sleep (1000 * 2 ^ i) s'"
  have ih: "outcome (retry_loop operation retries name (Suc i) ?s) = fst (operation (after_failures operation (Suc i) n ?s))
       \<and> attempts (retry_loop operation retries name (Suc i) ?s) = n + 1"
  proof (rule Suc.IH)
    show "Suc i + Suc n = retries" using Suc.prems(1) by simp
    show "\<forall>j\<le>n. rejected (fst (operation (after_failures operation (Suc i) j ?s)))"
    proof (intro allI impI)
      fix j assume "j \<le> n"
      then show "rejected (fst (operation (after_failures operation (Suc i) j ?s)))"
        using Suc.prems(2)[rule_format, of "Suc j"] op by simp
    qed
  qed
  have ne: "int i \<noteq> int retries - 1" "i < retries" using Suc.prems(1) by auto
  show ?case
    using ih ne op e
    by (subst retry_loop.simps, subst (2) retry_loop.simps)
       (auto simp: outcome_def attempts_def split: prod.splits)
qed

text \<open>
  The slip in the \<open>catch\<close> block: an attempt that rejects with \<open>null\<close> or \<open>undefined\<close>
  ends the loop at once, whatever attempts are left, and the executor fails with the
  \<open>TypeError\<close> of reading \<open>error.message\<close>.
\<close>

lemma retry_loop_nullish:
  assumes "i + n < retries"
    and "\<forall>j<n. rejected (fst (operation (after_failures operation i j s)))"
    and "fst (operation (after_failures operation i n s)) = Inl Nullish"
  shows "outcome (retry_loop operation retries name i s) = Inl message_TypeError
       \<and> attempts (retry_loop operation retries name i s) = n + 1"
  using assms
proof (induction n arbitrary: i s)
  case 0
  then show ?case
    by (subst retry_loop.simps, subst (2) retry_loop.simps)
       (auto simp: outcome_def attempts_def split: prod.splits sum.splits)
next
  case (Suc n)
  have "rejected (fst (operation s))" using Suc.prems(2)[rule_format, of 0] by simp
  then obtain e s' where op: "operation s = (Inl e, s')" and e: "e \<noteq> Nullish"
    by (rule rejected_cases)
  let ?s = "sleep (1000 * 2 ^ i) s'"
  have ih: "outcome (retry_loop operation retries name (Suc i) ?s) = Inl message_TypeError
       \<and> attempts (retry_loop operation retries name (Suc i) ?s) = n + 1"
  proof (rule Suc.IH)
    show "Suc i + n < retries" using Suc.prems(1) by simp
    show "\<forall>j<n. rejected (fst (operation (after_failures operation (Suc i) j ?s)))"
    proof (intro allI impI)
      fix j assume "j < n"
      then show "rejected (fst (operation (after_failures operation (Suc i) j ?s)))"
        using Suc.prems(2)[rule_format, of "Suc j"] op by simp
    qed
    show "fst (operation (after_failures operation (Suc i) n ?s)) = Inl Nullish"
      using Suc.prems(3) op by simp
  qed
  have ne: "int i \<noteq> int retries - 1" "i < retries" using Suc.prems(1) by auto
  show ?case
    using ih ne op e
    by (subst retry_loop.simps, subst (2) retry_loop.simps)
       (auto simp: outcome_def attempts_def split: prod.splits)
qed

lemma retry_loop_no_attempt:
  "\<not> i < retries \<Longrightarrow>
   retry_loop operation retries name i s =
     (Inl (JsError (name @ '' failed after '' @ decimal retries @ '' attempts'')), [], s)"
  by (subst retry_loop.simps) simp

lemma flaky_after_failures:
  "calls_made (after_failures (flaky k) i n s) = calls_made s + n"
  by (induction n arbitrary: i s) (auto simp: flaky_def sleep_def)

lemma flaky_nth_result:
  "nth_result (flaky k) n s =
     (if calls_made s + n < k then Inl (JsError (''failure '' @ decimal (calls_made s + n + 1)))
      else Inr (calls_made s + n + 1))"
  by (simp add: nth_result_def flaky_def flaky_after_failures)

lemma decimal_digit: "n < 10 \<Longrightarrow> decimal n = [''0123456789'' ! n]"
  by (subst decimal.simps) simp




text \<open>
  C8, as the code has it, for operations that do not reject with \<open>null\<close> or \<open>undefined\<close>.
  When every attempt is rejected (and at least one is made) the executor rethrows the
  value the last attempt threw, unchanged: the caller receives the raw last failure.
  Only with \<open>retries = 0\<close>, when the operation is never called, does it throw an \<open>Error\<close>
  of its own, which wraps nothing.
\<close>

theorem retryWithBackoff_rethrows_last:
  "(0 < retries \<and> (\<forall>j<retries. rejected (nth_result operation j s)) \<longrightarrow>
      outcome (retryWithBackoff operation retries name s) = nth_result operation (retries - 1) s)
   \<and> (retries = 0 \<longrightarrow>
      outcome (retryWithBackoff operation retries name s)
        = Inl (JsError (name @ '' failed after 0 attempts'')))"
proof (intro conjI impI)
  assume a: "0 < retries \<and> (\<forall>j<retries. rejected (nth_result operation j s))"
  then obtain n where n: "retries = Suc n" by (cases retries) auto
  have "outcome (retry_loop operation retries name 0 s) = fst (operation (after_failures operation 0 n s))
      \<and> attempts (retry_loop operation retries name 0 s) = n + 1"
    using a n by (intro retry_loop_exhausted) (auto simp: nth_result_def)
  then show "outcome (retryWithBackoff operation retries name s) = nth_result operation (retries - 1) s"
    using n by (simp add: retryWithBackoff_def nth_result_def)
next
  assume "retries = 0"
  then show "outcome (retryWithBackoff operation retries name s)
        = Inl (JsError (name @ '' failed after 0 attempts''))"
    by (simp add: retryWithBackoff_def retry_loop_no_attempt outcome_def decimal_digit)
qed

theorem retryWithBackoff_rethrows_last_witness:
  "outcome (retryWithBackoff (flaky 7) 3 ''Op'' \<lparr>clock = 0, calls_made = 0\<rparr>)
     = Inl (JsError ''failure 3'')
   \<and> outcome (retryWithBackoff (flaky 7) 0 ''Op'' \<lparr>clock = 0, calls_made = 0\<rparr>)
     = Inl (JsError ''Op failed after 0 attempts'')"
  using retryWithBackoff_rethrows_last [of 3 "flaky 7" "\<lparr>clock = 0, calls_made = 0\<rparr>" "''Op''"]
    retryWithBackoff_rethrows_last [of 0 "flaky 7" "\<lparr>clock = 0, calls_made = 0\<rparr>" "''Op''"]
  by (simp add: flaky_nth_result decimal_digit)

text \<open>
  C8 as stated fails: with two attempts that both fail, what the caller catches is
  exactly the value the operation threw on its second call, not an error wrapping it.
\<close>

theorem retryWithBackoff_wraps_counterexample:
  "outcome (retryWithBackoff (flaky 2) 2 ''Op'' \<lparr>clock = 0, calls_made = 0\<rparr>)
     = fst (flaky 2 \<lparr>clock = 1000, calls_made = 1\<rparr>)
   \<and> fst (flaky 2 \<lparr>clock = 1000, calls_made = 1\<rparr>) = Inl (JsError ''failure 2'')"
  by (simp add: retryWithBackoff_def retry_loop.simps flaky_def sleep_def outcome_def decimal_digit)

section \<open>Properties of the fetch controller\<close>



text \<open>
  C1 on the code, with \<open>retries = 1\<close>. Invocation 0 is issued (request id 1), then
  invocation 1 (request id 2). The first fetch of invocation 0 rejects; after the retry
  delay its retry, being a call of \<open>fetchData\<close>, takes request id 3. The fetch of
  invocation 1, the call issued last, resolves with \<open>''b''\<close>: its id 2 is no longer
  current and the result is dropped. The retry of invocation 0 resolves with \<open>''a''\<close>
  and is committed. Every invocation has settled and the state holds the result of the
  call issued first.
\<close>

theorem retry_supersedes_later_call:
  "run 1 [Fetch, Fetch, FetchRejects 0 (JsError ''down''), DelayElapses 0,
          FetchResolves 1 (Some ''b''), FetchResolves 0 (Some ''a'')] new_hook
     = Some \<lparr>state = \<lparr>data = Some ''a'', loading = False, error = None, isStale = False\<rparr>,
             requestIdRef = 3, isMountedRef = True,
             invocations = [Resolved (Some ''a''), Resolved None]\<rparr>"
  by (simp add: new_hook_def initial_state_def fetchData_begin_def on_result_def on_error_def Let_def)

lemma last_update_last: "Suc c = length xs \<Longrightarrow> last (xs[c := v]) = v"
  by (cases xs rule: rev_cases) auto

lemma last_update_other: "Suc c \<noteq> length xs \<Longrightarrow> last (xs[c := v]) = last xs"
  by (cases xs rule: rev_cases) (auto simp: list_update_append split: nat.splits)

lemma in_order_numbered:
  "in_order h \<Longrightarrow> c < length (invocations h) \<Longrightarrow> numbered c (invocations h ! c)"
  by (simp add: in_order_def list_all_iff)

lemma step_in_order:
  assumes "in_order h" "fetch_traffic ev" "step 0 ev h = Some h'"
  shows "in_order h'"
proof (cases ev)
  case Fetch
  then show ?thesis
    using assms
    by (auto simp: in_order_def fetchData_begin_def Let_def list_all_iff nth_append)
next
  case (FetchResolves c r)
  then obtain rid rc where c: "c < length (invocations h)" "invocations h ! c = AwaitingFetch rid rc"
    using assms(3) by (auto split: if_splits invocation.splits)
  then have rid: "rid = c + 1" using in_order_numbered[OF assms(1), of c] by simp
  have h': "h' = on_result c rid r h" using assms(3) FetchResolves c by simp
  show ?thesis
  proof (cases "c + 1 = length (invocations h)")
    case True
    then have "last ((invocations h)[c := Resolved r]) = Resolved r"
      by (simp add: last_update_last)
    then show ?thesis
      using assms(1) True rid c(1) unfolding h'
      by (auto simp: in_order_def on_result_def list_all_iff nth_list_update)
  next
    case False
    then have "last ((invocations h)[c := Resolved None]) = last (invocations h)"
      by (simp add: last_update_other)
    then show ?thesis
      using assms(1) False rid c(1) unfolding h'
      by (auto simp: in_order_def on_result_def list_all_iff nth_list_update)
  qed
next
  case (FetchRejects c e)
  then obtain rid rc where c: "c < length (invocations h)" "invocations h ! c = AwaitingFetch rid rc"
    using assms(3) by (auto split: if_splits invocation.splits)
  then have rid: "rid = c + 1" using in_order_numbered[OF assms(1), of c] by simp
  have h': "h' = on_error 0 c rid rc e h" using assms(3) FetchRejects c by simp
  show ?thesis
  proof (cases "c + 1 = length (invocations h)")
    case True
    then have "last ((invocations h)[c := Rejected (as_Error e)]) = Rejected (as_Error e)"
      by (simp add: last_update_last)
    then show ?thesis
      using assms(1) True rid c(1) unfolding h'
      by (auto simp: in_order_def on_error_def Let_def list_all_iff nth_list_update)
  next
    case False
    then have "last ((invocations h)[c := Rejected (as_Error e)]) = last (invocations h)"
      by (simp add: last_update_other)
    then show ?thesis
      using assms(1) False rid c(1) unfolding h'
      by (auto simp: in_order_def on_error_def Let_def list_all_iff nth_list_update)
  qed
next
  case (DelayElapses c)
  then obtain rc where "c < length (invocations h)" "invocations h ! c = AwaitingDelay rc"
    using assms(3) by (auto split: if_splits invocation.splits)
  then show ?thesis using in_order_numbered[OF assms(1), of c] by simp
next
  case Unmount
  then show ?thesis using assms(2) by simp
next
  case Reset
  then show ?thesis using assms(2) by simp
next
  case MarkStale
  then have "h' = h\<lparr>state := (state h)\<lparr>isStale := True\<rparr>\<rparr>" using assms(3) by simp
  moreover have "shows_outcome ((state h)\<lparr>isStale := True\<rparr>) i = shows_outcome (state h) i" for i
    by (cases i) auto
  ultimately show ?thesis using assms(1) by (auto simp: in_order_def)
qed

lemma run_in_order:
  "in_order h \<Longrightarrow> list_all fetch_traffic evs \<Longrightarrow> run 0 evs h = Some h' \<Longrightarrow> in_order h'"
proof (induction evs arbitrary: h)
  case Nil
  then show ?case by simp
next
  case (Cons ev evs)
  then obtain h1 where h1: "step 0 ev h = Some h1" "run 0 evs h1 = Some h'"
    by (auto split: option.splits)
  have "in_order h1" using step_in_order[OF Cons.prems(1) _ h1(1)] Cons.prems(2) by simp
  then show ?case using Cons.IH[OF _ _ h1(2)] Cons.prems(2) by simp
qed

text \<open>
  Where C1 does hold: with \<open>retries = 0\<close>, the default, after any fetch traffic on a new
  hook (no unmount, no \<open>reset\<close>) the state shows the outcome of the invocation issued
  last, as soon as that invocation has settled, in whatever order the fetches complete.
\<close>

lemma last_call_wins_without_retries:
  assumes "run 0 evs new_hook = Some h" "list_all fetch_traffic evs" "invocations h \<noteq> []"
  shows "shows_outcome (state h) (last (invocations h))"
proof -
  have "in_order (new_hook :: 'a hook)"
    by (simp add: in_order_def new_hook_def)
  then have "in_order h" using run_in_order assms(1,2) by blast
  then show ?thesis using assms(3) by (simp add: in_order_def)
qed

section \<open>Properties of the trend reader\<close>

lemma uniqueMovies_foldl:
  "foldl (\<lambda>unique movie.
            (case find (\<lambda>m. movie_id m = movie_id movie) unique of
               None \<Rightarrow> unique @ [movie]
             | Some exists \<Rightarrow> unique)) acc ds
   = acc @ keep_first_occurrence (filter (\<lambda>x. movie_id x \<notin> movie_id ` set acc) ds)"
proof (induction ds arbitrary: acc)
  case Nil
  then show ?case by simp
next
  case (Cons d ds)
  show ?case
  proof (cases "movie_id d \<in> movie_id ` set acc")
    case True
    then have "find (\<lambda>m. movie_id m = movie_id d) acc \<noteq> None"
      by (auto simp: find_None_iff)
    then show ?thesis using True Cons.IH[of acc] by (auto split: option.splits)
  next
    case False
    then have "\<forall>x\<in>set acc. movie_id x \<noteq> movie_id d"
      by (metis imageI)
    then have f: "find (\<lambda>m. movie_id m = movie_id d) acc = None"
      by (simp add: find_None_iff)
    have "filter (\<lambda>x. movie_id x \<notin> movie_id ` set (acc @ [d])) ds
        = filter (\<lambda>x. movie_id x \<noteq> movie_id d) (filter (\<lambda>x. movie_id x \<notin> movie_id ` set acc) ds)"
      by (auto intro: filter_cong)
    then show ?thesis using False f Cons.IH[of "acc @ [d]"] by simp
  qed
qed

lemma uniqueMovies_keep_first: "uniqueMovies ds = keep_first_occurrence ds"
  by (simp add: uniqueMovies_def uniqueMovies_foldl)

lemma keep_first_subset: "set (keep_first_occurrence ds) \<subseteq> set ds"
  by (induction ds rule: keep_first_occurrence.induct) auto

lemma keep_first_distinct: "distinct (map movie_id (keep_first_occurrence ds))"
proof (induction ds rule: keep_first_occurrence.induct)
  case 1
  then show ?case by simp
next
  case (2 d ds)
  have "movie_id d \<notin> movie_id ` set (keep_first_occurrence (filter (\<lambda>x. movie_id x \<noteq> movie_id d) ds))"
    using keep_first_subset[of "filter (\<lambda>x. movie_id x \<noteq> movie_id d) ds"] by auto
  then show ?case using 2 by simp
qed

lemma find_filter_other:
  "k \<noteq> m \<Longrightarrow> find (\<lambda>x. movie_id x = k) (filter (\<lambda>x. movie_id x \<noteq> m) ds) = find (\<lambda>x. movie_id x = k) ds"
  by (induction ds) auto

lemma keep_first_is_first:
  "x \<in> set (keep_first_occurrence ds) \<Longrightarrow> find (\<lambda>y. movie_id y = movie_id x) ds = Some x"
proof (induction ds rule: keep_first_occurrence.induct)
  case 1
  then show ?case by simp
next
  case (2 d ds)
  show ?case
  proof (cases "x = d")
    case True
    then show ?thesis by simp
  next
    case False
    then have x: "x \<in> set (keep_first_occurrence (filter (\<lambda>y. movie_id y \<noteq> movie_id d) ds))"
      using 2(2) by simp
    then have ne: "movie_id x \<noteq> movie_id d"
      using keep_first_subset[of "filter (\<lambda>y. movie_id y \<noteq> movie_id d) ds"] by auto
    have "find (\<lambda>y. movie_id y = movie_id x) (filter (\<lambda>y. movie_id y \<noteq> movie_id d) ds) = Some x"
      using 2(1) x by simp
    then show ?thesis using ne by (simp add: find_filter_other)
  qed
qed

lemma trendingQuery_cases:
  "trendingQuery w =
     (case faults w of
        [] \<Rightarrow> (Inr (take 5 (uniqueMovies (select [Q_limit 10, Q_orderDesc_count] (docs w)))), w)
      | None # fs \<Rightarrow>
          (Inr (take 5 (uniqueMovies (select [Q_limit 10, Q_orderDesc_count] (docs w)))),
           w\<lparr>faults := fs\<rparr>)
      | Some e # fs \<Rightarrow> (Inl e, w\<lparr>faults := fs\<rparr>))"
  by (simp add: trendingQuery_def listDocuments_def remote_call_def split: list.splits option.splits)

lemma getTrendingMovies_result:
  "fst (getTrendingMovies w) =
     Inr (if gives_up 3 (faults w) then []
          else take 5 (keep_first_occurrence (select [Q_limit 10, Q_orderDesc_count] (docs w))))"
  by (simp add: getTrendingMovies_def retryWithBackoff_def retry_loop.simps trendingQuery_cases
      sleep_def uniqueMovies_keep_first numeral_3_eq_3
      split: list.splits option.splits)

lemma rejected_calls_give_up:
  "n \<le> length fs \<Longrightarrow> list_all (\<lambda>f. f \<noteq> None) (take n fs) \<Longrightarrow> gives_up n fs"
  by (induction n fs rule: gives_up.induct) auto

lemma rejects_next_gives_up: "rejects_next 3 fs \<Longrightarrow> gives_up 3 fs"
  by (simp add: rejects_next_def rejected_calls_give_up)

text \<open>
  C6. Whatever the collection holds and whichever calls are rejected, the trend reader
  resolves with at most 5 documents, no two with the same \<open>movie_id\<close>, each of them the
  first document with its \<open>movie_id\<close> in the listing the store returns (10 documents at
  most, by \<open>count\<close> descending). They are the first 5 of the listing's first occurrences
  unless the executor gives up (all three attempts are rejected, or one is rejected with
  \<open>null\<close> or \<open>undefined\<close>); then the list is empty.
\<close>

theorem getTrendingMovies_unique:
  "\<exists>ms. fst (getTrendingMovies w) = Inr ms
        \<and> length ms \<le> 5
        \<and> distinct (map movie_id ms)
        \<and> (\<forall>d\<in>set ms. find (\<lambda>x. movie_id x = movie_id d)
                           (select [Q_limit 10, Q_orderDesc_count] (docs w)) = Some d)
        \<and> (\<not> gives_up 3 (faults w) \<longrightarrow>
             ms = take 5 (keep_first_occurrence (select [Q_limit 10, Q_orderDesc_count] (docs w))))
        \<and> (gives_up 3 (faults w) \<longrightarrow> ms = [])"
proof -
  let ?L = "select [Q_limit 10, Q_orderDesc_count] (docs w)"
  let ?ms = "if gives_up 3 (faults w) then [] else take 5 (keep_first_occurrence ?L)"
  have "distinct (map movie_id ?ms)"
    using keep_first_distinct[of ?L] by (simp add: take_map[symmetric] distinct_take)
  moreover have "\<forall>d\<in>set ?ms. find (\<lambda>x. movie_id x = movie_id d) ?L = Some d"
    using keep_first_is_first[of _ ?L] by (auto dest: in_set_takeD)
  moreover have "length ?ms \<le> 5" by simp
  ultimately show ?thesis
    using getTrendingMovies_result[of w] by (intro exI[of _ ?ms]) simp
qed

theorem getTrendingMovies_unique_witness:
  "fst (getTrendingMovies
          (sample_world [sample_doc 1 7 3 [] 0, sample_doc 2 8 4 [] 0, sample_doc 3 7 5 [] 0]
             [Some (JsError ''timeout'')]))
     = Inr [sample_doc 3 7 5 [] 0, sample_doc 2 8 4 [] 0]
   \<and> fst (getTrendingMovies
          (sample_world [sample_doc 1 7 3 [] 0, sample_doc 2 8 4 [] 0, sample_doc 3 7 5 [] 0]
             [Some Nullish]))
     = Inr []"
  using getTrendingMovies_unique
    [of "sample_world [sample_doc 1 7 3 [] 0, sample_doc 2 8 4 [] 0, sample_doc 3 7 5 [] 0]
           [Some (JsError ''timeout'')]"]
    getTrendingMovies_unique
    [of "sample_world [sample_doc 1 7 3 [] 0, sample_doc 2 8 4 [] 0, sample_doc 3 7 5 [] 0]
           [Some Nullish]"]
  by (auto simp: numeral_3_eq_3 sample_world_def select_def sample_doc_def stored_count_def
      last_or_empty_def)

text \<open>
  C10. The trend reader never rejects: it always resolves with a list, and with the
  empty list when all three attempts of the store query are rejected.
\<close>

theorem getTrendingMovies_never_throws:
  "\<exists>ms. fst (getTrendingMovies w) = Inr ms \<and> (rejects_next 3 (faults w) \<longrightarrow> ms = [])"
  using getTrendingMovies_result[of w] rejects_next_gives_up[of "faults w"] by auto

theorem getTrendingMovies_never_throws_witness:
  "fst (getTrendingMovies
          (sample_world [sample_doc 1 7 3 [] 0]
             [Some NonError, Some (JsError ''offline''), Some (JsError ''offline'')]))
     = Inr []"
  using getTrendingMovies_never_throws
    [of "sample_world [sample_doc 1 7 3 [] 0]
           [Some NonError, Some (JsError ''offline''), Some (JsError ''offline'')]"]
  by (auto simp: rejects_next_def sample_world_def)

section \<open>Properties of the search aggregator\<close>

lemma retry_loop_rule:
  assumes "\<And>s e s'. P s \<Longrightarrow> operation s = (Inl e, s') \<Longrightarrow> P s'"
    and "\<And>s ms. P s \<Longrightarrow> P (sleep ms s)"
    and "\<And>s v s'. P s \<Longrightarrow> operation s = (Inr v, s') \<Longrightarrow> Q v s'"
    and "P s"
    and "retry_loop operation retries name i s = (Inr v, lg, s')"
  shows "Q v s'"
  using assms
proof (induction operation retries name i s arbitrary: lg rule: retry_loop.induct)
  case (1 opn retries nm i s)
  note fail = "1.prems"(1) and slp = "1.prems"(2) and succ = "1.prems"(3)
    and P = "1.prems"(4) and run = "1.prems"(5)
  show ?case
  proof (cases "i < retries")
    case False
    then show ?thesis using run by (simp add: retry_loop_no_attempt)
  next
    case True
    obtain r s1 where op: "opn s = (r, s1)" by (cases "opn s")
    show ?thesis
    proof (cases r)
      case (Inr x)
      then have "v = x" "s' = s1"
        using run op True by (subst (asm) retry_loop.simps; simp)+
      then show ?thesis using succ[OF P, of x s1] op Inr by simp
    next
      case (Inl e)
      have en: "e \<noteq> Nullish"
        using run op True Inl by (subst (asm) retry_loop.simps) (auto split: if_splits)
      have ne: "int i \<noteq> int retries - 1"
        using run op True Inl by (subst (asm) retry_loop.simps) (auto split: if_splits)
      obtain r2 lg2 s2 where rec:
        "retry_loop opn retries nm (i + 1) (sleep (1000 * 2 ^ i) s1) = (r2, lg2, s2)"
        by (metis prod_cases3)
      have eq: "r2 = Inr v" "s2 = s'"
        using run op True Inl ne en rec by (subst (asm) retry_loop.simps; simp)+
      have P': "P (sleep (1000 * 2 ^ i) s1)"
        using fail[OF P, of e s1] op Inl slp by simp
      show ?thesis
      proof (rule "1.IH")
        show "i < retries" by (rule True)
        show "(Inl e, s1) = opn s" using op Inl by simp
        show "Inl e = Inl e" by simp
        show "e \<noteq> Nullish" by (rule en)
        show "int i \<noteq> int retries - 1" by (rule ne)
        show "retry_loop opn retries nm (i + 1) (sleep (1000 * 2 ^ i) s1) = (Inr v, lg2, s')"
          using rec eq by simp
      qed (use fail slp succ P' in auto)
    qed
  qed
qed

lemma select_equal:
  "select [Q_equal_movie_id m] ds = take 25 (filter (\<lambda>d. movie_id d = m) ds)"
  by (simp add: select_def)

lemma round_magnitude_exact: "n \<le> 2 ^ 53 \<Longrightarrow> round_magnitude n = n"
  by (simp add: round_magnitude_def)

lemma double_of_exact:
  assumes "\<bar>x\<bar> \<le> 2 ^ 53"
  shows "double_of x = Finite x"
proof -
  have "(2::int) ^ 53 < 2 ^ 1024" by (rule power_strict_increasing) simp_all
  then have "\<not> 2 ^ 1024 \<le> \<bar>x\<bar>" using assms by linarith
  moreover have "sgn x * \<bar>x\<bar> = x" by (simp add: mult_sgn_abs)
  ultimately show ?thesis by (simp add: double_of_def round_magnitude_exact[OF assms])
qed

lemma count_or0_exact: "\<bar>stored_count d\<bar> \<le> 2 ^ 53 \<Longrightarrow> count_or0 d = Finite (stored_count d)"
  by (auto simp: count_or0_def stored_count_def double_of_exact split: option.splits)

lemma incremented_count:
  assumes "\<bar>stored_count e\<bar> < 2 ^ 53"
  shows "to_json (js_plus (count_or0 e) (Finite 1)) = Some (stored_count e + 1)"
proof -
  have "count_or0 e = Finite (stored_count e)" using assms by (intro count_or0_exact) simp
  moreover have "double_of (stored_count e + 1) = Finite (stored_count e + 1)"
    using assms by (intro double_of_exact) linarith
  ultimately show ?thesis by simp
qed

lemma upsert_failure:
  "upsert query movie w = (Inl e, w') \<Longrightarrow> docs w' = docs w \<and> nextId w' = nextId w"
  by (auto simp: upsert_def listDocuments_def updateDocument_def createDocument_def
      remote_call_def Let_def split: list.splits option.splits if_splits prod.splits sum.splits)

lemma upsert_success:
  assumes a: "upsert query movie w = (Inr u, w')"
    and safe: "\<forall>d\<in>set (docs w). movie_id d = tmdb_id movie \<longrightarrow> \<bar>stored_count d\<bar> < 2 ^ 53"
  shows "docs w' = after_search query movie (nextId w) (clock w) (docs w)"
proof -
  obtain f w1 where rc: "remote_call w = (f, w1)" by (cases "remote_call w")
  then have w1: "docs w1 = docs w" "nextId w1 = nextId w" "clock w1 = clock w"
    by (auto simp: remote_call_def split: list.splits)
  have f: "f = None" using a rc by (cases f) (auto simp: upsert_def listDocuments_def)
  obtain f2 w2 where rc2: "remote_call w1 = (f2, w2)" by (cases "remote_call w1")
  then have w2: "docs w2 = docs w" "nextId w2 = nextId w" "clock w2 = clock w"
    using w1 by (auto simp: remote_call_def split: list.splits)
  show ?thesis
  proof (cases "filter (\<lambda>d. movie_id d = tmdb_id movie) (docs w)")
    case Nil
    then show ?thesis
      using a rc f rc2 w1 w2
      by (auto simp: upsert_def listDocuments_def createDocument_def select_equal after_search_def
          first_record_def Let_def split: option.splits)
  next
    case (Cons e others)
    then have "e \<in> set (filter (\<lambda>d. movie_id d = tmdb_id movie) (docs w))" by simp
    then have "\<bar>stored_count e\<bar> < 2 ^ 53" using safe by simp
    then have inc: "to_json (js_plus (count_or0 e) (Finite 1)) = Some (stored_count e + 1)"
      by (rule incremented_count)
    have "take 25 (filter (\<lambda>d. movie_id d = tmdb_id movie) (docs w)) = e # take 24 others"
      using Cons by simp
    then show ?thesis
      using a rc f rc2 w1 w2 Cons inc
      by (auto simp: upsert_def listDocuments_def updateDocument_def select_equal after_search_def
          recorded_def Let_def split: option.splits if_splits)
  qed
qed

lemma upsert_served:
  assumes "faults w = []"
  shows "\<exists>w'. upsert query movie w = (Inr (), w')"
proof (cases "filter (\<lambda>d. movie_id d = tmdb_id movie) (docs w)")
  case Nil
  then show ?thesis
    using assms
    by (simp add: upsert_def listDocuments_def createDocument_def remote_call_def select_equal Let_def)
next
  case (Cons e others)
  then have "e \<in> set (filter (\<lambda>d. movie_id d = tmdb_id movie) (docs w))" by simp
  then have "doc_id e \<in> doc_id ` set (docs w)" by auto
  moreover have "take 25 (filter (\<lambda>d. movie_id d = tmdb_id movie) (docs w)) = e # take 24 others"
    using Cons by simp
  ultimately show ?thesis
    using assms
    by (simp add: upsert_def listDocuments_def updateDocument_def remote_call_def select_equal Let_def)
qed

lemmas upsert_eval_defs = updateSearchCount_def retryWithBackoff_def retry_loop.simps upsert_def
  listDocuments_def updateDocument_def createDocument_def remote_call_def select_def sleep_def
  sample_world_def sample_doc_def sample_movie_def docTerms_def Let_def
  last_or_empty_def poster_url_of_def string_or_null_def number_or_null_def

text \<open>
  C4, as the code has it. Let every aggregate of the movie have a count below \<open>2^53\<close> in
  magnitude. When \<open>updateSearchCount\<close> resolves, the collection is the one it started
  from with exactly one change. If the collection has a document for the movie, the
  first such document \<open>e\<close> in listing order is rewritten: its count becomes \<open>e\<close>'s count
  (0 when absent) plus 1, \<open>lastSearchTerm\<close> becomes the query, and the query is appended to
  \<open>e\<close>'s terms only if it is not among them. Otherwise one document is added, with
  \<open>searchTerms = [query]\<close> and \<open>count = 1\<close>. And the call does resolve, on its first
  attempt, when no call to the store is rejected.
\<close>

theorem updateSearchCount_effect:
  assumes "\<forall>d\<in>set (docs w). movie_id d = tmdb_id movie \<longrightarrow> \<bar>stored_count d\<bar> < 2 ^ 53"
  shows "(updateSearchCount query movie w = (Inr u, lg, w') \<longrightarrow>
            (\<exists>t. docs w' = after_search query movie (nextId w) t (docs w)))
       \<and> (faults w = [] \<longrightarrow>
            (\<exists>w''. updateSearchCount query movie w = (Inr (), [Attempt 1], w'')
               \<and> docs w'' = after_search query movie (nextId w) (clock w) (docs w)))"
proof (intro conjI impI)
  assume run: "updateSearchCount query movie w = (Inr u, lg, w')"
  show "\<exists>t. docs w' = after_search query movie (nextId w) t (docs w)"
  proof (rule retry_loop_rule[where P="\<lambda>s. docs s = docs w \<and> nextId s = nextId w"
        and Q="\<lambda>v s'. \<exists>t. docs s' = after_search query movie (nextId w) t (docs w)"
        and operation="upsert query movie"])
    show "docs w = docs w \<and> nextId w = nextId w" by simp
    show "retry_loop (upsert query movie) 3 ''UpdateSearchCount'' 0 w = (Inr u, lg, w')"
      using run by (simp add: updateSearchCount_def retryWithBackoff_def)
  next
    fix s e s' assume "docs s = docs w \<and> nextId s = nextId w" "upsert query movie s = (Inl e, s')"
    then show "docs s' = docs w \<and> nextId s' = nextId w" using upsert_failure by metis
  next
    fix s :: world and ms assume "docs s = docs w \<and> nextId s = nextId w"
    then show "docs (sleep ms s) = docs w \<and> nextId (sleep ms s) = nextId w"
      by (simp add: sleep_def)
  next
    fix s v s' assume s: "docs s = docs w \<and> nextId s = nextId w" and up: "upsert query movie s = (Inr v, s')"
    have "\<forall>d\<in>set (docs s). movie_id d = tmdb_id movie \<longrightarrow> \<bar>stored_count d\<bar> < 2 ^ 53"
      using assms s by simp
    from upsert_success[OF up this] s
    show "\<exists>t. docs s' = after_search query movie (nextId w) t (docs w)" by auto
  qed
next
  assume served: "faults w = []"
  obtain w'' where up: "upsert query movie w = (Inr (), w'')"
    using upsert_served[OF served] by blast
  have "updateSearchCount query movie w = (Inr (), [Attempt 1], w'')"
    using up by (simp add: updateSearchCount_def retryWithBackoff_def retry_loop.simps)
  moreover have "docs w'' = after_search query movie (nextId w) (clock w) (docs w)"
    using upsert_success[OF up assms] .
  ultimately show "\<exists>w''. updateSearchCount query movie w = (Inr (), [Attempt 1], w'')
               \<and> docs w'' = after_search query movie (nextId w) (clock w) (docs w)"
    by blast
qed

theorem updateSearchCount_effect_witness:
  "(\<exists>t. docs (snd (snd (updateSearchCount ''batman'' (sample_movie 42)
             (sample_world [sample_doc 1 42 3 [''batman''] 100] [Some (JsError ''timeout'')]))))
        = after_search ''batman'' (sample_movie 42) 1000 t [sample_doc 1 42 3 [''batman''] 100])
   \<and> (\<exists>w''. updateSearchCount ''joker'' (sample_movie 42)
             (sample_world [sample_doc 1 42 3 [''batman''] 100] []) = (Inr (), [Attempt 1], w'')
        \<and> docs w'' = after_search ''joker'' (sample_movie 42) 1000 5000
                        [sample_doc 1 42 3 [''batman''] 100])
   \<and> map count (docs (snd (snd (updateSearchCount ''batman'' (sample_movie 42)
             (sample_world [sample_doc 1 42 3 [''batman''] 100] [Some (JsError ''timeout'')])))))
        = [Some 4]
   \<and> map searchTerms (docs (snd (snd (updateSearchCount ''batman'' (sample_movie 42)
             (sample_world [sample_doc 1 42 3 [''batman''] 100] [Some (JsError ''timeout'')])))))
        = [Some [''batman'']]
   \<and> map searchTerms (docs (snd (snd (updateSearchCount ''joker'' (sample_movie 42)
             (sample_world [sample_doc 1 42 3 [''batman''] 100] [])))))
        = [Some [''batman'', ''joker'']]
   \<and> map (\<lambda>d. (movie_id d, count d, searchTerms d))
         (docs (snd (snd (updateSearchCount ''joker'' (sample_movie 7)
             (sample_world [sample_doc 1 42 3 [''batman''] 100] [])))))
        = [(42, Some 3, Some [''batman'']), (7, Some 1, Some [''joker''])]"
proof -
  let ?W = "sample_world [sample_doc 1 42 3 [''batman''] 100] [Some (JsError ''timeout'')]"
  let ?V = "sample_world [sample_doc 1 42 3 [''batman''] 100] []"
  let ?R = "updateSearchCount ''batman'' (sample_movie 42) ?W"
  have inc: "to_json (js_plus (count_or0 (sample_doc 1 42 3 [''batman''] 100)) (Finite 1)) = Some 4"
    using incremented_count[of "sample_doc 1 42 3 [''batman''] 100"]
    by (simp add: stored_count_def sample_doc_def)
  have safeW: "\<forall>d\<in>set (docs ?W). movie_id d = tmdb_id (sample_movie 42) \<longrightarrow> \<bar>stored_count d\<bar> < 2 ^ 53"
    and safeV: "\<forall>d\<in>set (docs ?V). movie_id d = tmdb_id (sample_movie 42) \<longrightarrow> \<bar>stored_count d\<bar> < 2 ^ 53"
    by (simp_all add: sample_world_def sample_doc_def stored_count_def)
  have "fst ?R = Inr ()"
    by (simp add: upsert_eval_defs)
  then have "?R = (Inr (), fst (snd ?R), snd (snd ?R))"
    by (metis prod.collapse)
  with updateSearchCount_effect[OF safeW, of "''batman''" "()" "fst (snd ?R)" "snd (snd ?R)"]
  have "\<exists>t. docs (snd (snd ?R))
        = after_search ''batman'' (sample_movie 42) 1000 t [sample_doc 1 42 3 [''batman''] 100]"
    by (simp add: sample_world_def)
  moreover from updateSearchCount_effect[OF safeV, of "''joker''"]
  have "\<exists>w''. updateSearchCount ''joker'' (sample_movie 42) ?V = (Inr (), [Attempt 1], w'')
        \<and> docs w'' = after_search ''joker'' (sample_movie 42) 1000 5000
                        [sample_doc 1 42 3 [''batman''] 100]"
    by (simp add: sample_world_def)
  moreover have "map count (docs (snd (snd ?R))) = [Some 4]"
    "map searchTerms (docs (snd (snd ?R))) = [Some [''batman'']]"
    "map searchTerms (docs (snd (snd (updateSearchCount ''joker'' (sample_movie 42) ?V))))
        = [Some [''batman'', ''joker'']]"
    "map (\<lambda>d. (movie_id d, count d, searchTerms d))
         (docs (snd (snd (updateSearchCount ''joker'' (sample_movie 7) ?V))))
        = [(42, Some 3, Some [''batman'']), (7, Some 1, Some [''joker''])]"
    using inc by (simp_all add: upsert_eval_defs)
  ultimately show ?thesis by blast
qed

text \<open>
  C4 as stated fails at the end of the exact range of a double. The aggregate of movie 42
  has count \<open>2^53\<close>; the call resolves, and the count it writes is \<open>2^53\<close> again, not
  \<open>2^53 + 1\<close>.
\<close>

theorem updateSearchCount_large_count:
  "fst (updateSearchCount ''batman'' (sample_movie 42)
          (sample_world [sample_doc 1 42 9007199254740992 [''batman''] 100] [])) = Inr ()
   \<and> map count (docs (snd (snd (updateSearchCount ''batman'' (sample_movie 42)
          (sample_world [sample_doc 1 42 9007199254740992 [''batman''] 100] [])))))
       = [Some 9007199254740992]"
  by code_simp

section \<open>Properties of the duplicate reconciler\<close>

lemma remote_call_served: "faults w = [] \<Longrightarrow> remote_call w = (None, w)"
  by (simp add: remote_call_def)

lemma updateDocument_served:
  "faults w = [] \<Longrightarrow> i \<in> doc_id ` set (docs w) \<Longrightarrow>
   updateDocument i patch w =
     (Inr (), w\<lparr>docs := map (\<lambda>d. if doc_id d = i then (patch d)\<lparr>updatedAt := Some (clock w)\<rparr> else d)
                            (docs w)\<rparr>)"
  by (simp add: updateDocument_def remote_call_served)

lemma deleteDocument_served:
  "faults w = [] \<Longrightarrow> i \<in> doc_id ` set (docs w) \<Longrightarrow>
   deleteDocument i w = (Inr (), w\<lparr>docs := filter (\<lambda>d. doc_id d \<noteq> i) (docs w)\<rparr>)"
  by (simp add: deleteDocument_def remote_call_served)

lemma delete_loop_served:
  "faults w = [] \<Longrightarrow> distinct (map doc_id ds) \<Longrightarrow> doc_id ` set ds \<subseteq> doc_id ` set (docs w) \<Longrightarrow>
   delete_loop ds r w =
     (Inr (r + length ds), w\<lparr>docs := filter (\<lambda>d. doc_id d \<notin> doc_id ` set ds) (docs w)\<rparr>)"
proof (induction ds arbitrary: r w)
  case Nil
  then show ?case by simp
next
  case (Cons d ds)
  let ?w = "w\<lparr>docs := filter (\<lambda>x. doc_id x \<noteq> doc_id d) (docs w)\<rparr>"
  have del: "deleteDocument (doc_id d) w = (Inr (), ?w)"
    using Cons.prems by (intro deleteDocument_served) auto
  have sub: "doc_id ` set ds \<subseteq> doc_id ` set (docs ?w)"
  proof
    fix i assume i: "i \<in> doc_id ` set ds"
    then have "i \<noteq> doc_id d"
      using Cons.prems(2) by (metis distinct.simps(2) list.simps(9) set_map)
    moreover obtain x where "x \<in> set (docs w)" "doc_id x = i"
      using i Cons.prems(3) by auto
    ultimately show "i \<in> doc_id ` set (docs ?w)" by force
  qed
  have "delete_loop ds (r + 1) ?w =
     (Inr (r + 1 + length ds), ?w\<lparr>docs := filter (\<lambda>x. doc_id x \<notin> doc_id ` set ds) (docs ?w)\<rparr>)"
    using Cons.prems sub by (intro Cons.IH) auto
  moreover have "filter (\<lambda>x. doc_id x \<notin> doc_id ` set ds) (filter (\<lambda>x. doc_id x \<noteq> doc_id d) (docs w))
      = filter (\<lambda>x. doc_id x \<notin> doc_id ` set (d # ds)) (docs w)"
    by (auto intro: filter_cong)
  ultimately show ?case using del by simp
qed

lemma sortedDocs_set: "set (sortedDocs_of g) = set g"
  by (simp add: sortedDocs_of_def)

lemma sortedDocs_length: "length (sortedDocs_of g) = length g"
  by (simp add: sortedDocs_of_def)

lemma sortedDocs_distinct: "distinct (map doc_id g) \<Longrightarrow> distinct (map doc_id (sortedDocs_of g))"
proof -
  assume "distinct (map doc_id g)"
  then have "distinct g" "inj_on doc_id (set g)" by (auto simp: distinct_map)
  then show ?thesis by (simp add: sortedDocs_of_def distinct_map)
qed

lemma sortedDocs_split:
  "g \<noteq> [] \<Longrightarrow> sortedDocs_of g = keepDoc_of g # tl (sortedDocs_of g)"
  using sortedDocs_length[of g] by (cases "sortedDocs_of g") (auto simp: keepDoc_of_def)

lemma keepDoc_in: "g \<noteq> [] \<Longrightarrow> keepDoc_of g \<in> set g"
  using sortedDocs_split[of g] sortedDocs_set[of g] by (metis list.set_intros(1))


lemma deleted_in_group:
  "set (tl (sortedDocs_of g)) \<subseteq> set g"
  using sortedDocs_set[of g] by (metis list.set_sel(2) subsetI tl_Nil)

lemma merge_group_served:
  assumes "faults w = []" "distinct (map doc_id g)" "doc_id ` set g \<subseteq> doc_id ` set (docs w)" "g \<noteq> []"
  shows "merge_group g (f, r) w =
     (Inr (f + 1, r + (length g - 1)), w\<lparr>docs := merged_docs g (clock w) (docs w)\<rparr>)"
proof -
  let ?k = "keepDoc_of g"
  let ?patch = "\<lambda>d. d\<lparr>count := to_json (totalCount_of g), searchTerms := Some (allSearchTerms_of g),
       lastSearchTerm := last_or_empty (allSearchTerms_of g), lastSearched := clock w\<rparr>"
  let ?w1 = "w\<lparr>docs := map (\<lambda>d. if doc_id d = doc_id ?k then (?patch d)\<lparr>updatedAt := Some (clock w)\<rparr> else d) (docs w)\<rparr>"
  have kin: "doc_id ?k \<in> doc_id ` set (docs w)"
    using keepDoc_in[OF assms(4)] assms(3) by auto
  have upd: "updateDocument (doc_id ?k) ?patch w = (Inr (), ?w1)"
    using assms(1) kin by (rule updateDocument_served)
  have "map doc_id (docs ?w1) = map doc_id (docs w)"
    by (simp add: comp_def if_distrib cong: if_cong)
  then have ids1: "doc_id ` set (docs ?w1) = doc_id ` set (docs w)"
    by (metis set_map)
  have "delete_loop (tl (sortedDocs_of g)) r ?w1 =
     (Inr (r + length (tl (sortedDocs_of g))),
      ?w1\<lparr>docs := filter (\<lambda>d. doc_id d \<notin> doc_id ` set (tl (sortedDocs_of g))) (docs ?w1)\<rparr>)"
  proof (rule delete_loop_served)
    show "faults ?w1 = []" using assms(1) by simp
    show "distinct (map doc_id (tl (sortedDocs_of g)))"
      using sortedDocs_distinct[OF assms(2)] by (simp add: distinct_tl map_tl)
    show "doc_id ` set (tl (sortedDocs_of g)) \<subseteq> doc_id ` set (docs ?w1)"
      using deleted_in_group[of g] assms(3) unfolding ids1 by blast
  qed
  moreover have "length (tl (sortedDocs_of g)) = length g - 1"
    by (simp add: sortedDocs_length)
  ultimately show ?thesis
    using upd by (simp add: merge_group_def Let_def merged_docs_def merged_def keepDoc_of_def cong: if_cong)
qed

lemma merged_docs_keys:
  "map (\<lambda>d. (doc_id d, movie_id d)) (merged_docs g t ds)
   = filter (\<lambda>p. fst p \<notin> doc_id ` set (tl (sortedDocs_of g))) (map (\<lambda>d. (doc_id d, movie_id d)) ds)"
  by (induction ds) (auto simp: merged_docs_def merged_def)

lemma merged_docs_ids:
  "doc_id ` set (merged_docs g t ds) = doc_id ` set ds - doc_id ` set (tl (sortedDocs_of g))"
proof -
  have "map fst (map (\<lambda>d. (doc_id d, movie_id d)) (merged_docs g t ds))
      = map fst (filter (\<lambda>p. fst p \<notin> doc_id ` set (tl (sortedDocs_of g))) (map (\<lambda>d. (doc_id d, movie_id d)) ds))"
    by (simp only: merged_docs_keys)
  then have "map doc_id (merged_docs g t ds)
      = filter (\<lambda>i. i \<notin> doc_id ` set (tl (sortedDocs_of g))) (map doc_id ds)"
    by (simp add: filter_map comp_def)
  then have "set (map doc_id (merged_docs g t ds))
      = set (filter (\<lambda>i. i \<notin> doc_id ` set (tl (sortedDocs_of g))) (map doc_id ds))"
    by simp
  then show ?thesis by auto
qed



lemma merged_all_keys:
  "map (\<lambda>d. (doc_id d, movie_id d)) (merged_all gs t ds)
   = filter (\<lambda>p. fst p \<notin> deleted_ids gs) (map (\<lambda>d. (doc_id d, movie_id d)) ds)"
proof (induction gs arbitrary: ds)
  case Nil
  then show ?case by simp
next
  case (Cons p gs)
  obtain m g where p: "p = (m, g)" by (cases p)
  show ?case
    using Cons.IH[of "if length g > 1 then merged_docs g t ds else ds"]
    by (auto simp: p merged_docs_keys intro: filter_cong)
qed



lemma process_groups_served:
  "faults w = [] \<Longrightarrow> distinct (concat (map (\<lambda>p. map doc_id (snd p)) gs)) \<Longrightarrow>
   (\<forall>p\<in>set gs. doc_id ` set (snd p) \<subseteq> doc_id ` set (docs w)) \<Longrightarrow>
   \<exists>f' r'. process_groups gs (f, r) w = (Inr (f', r'), w\<lparr>docs := merged_all gs (clock w) (docs w)\<rparr>)"
proof (induction gs arbitrary: f r w)
  case Nil
  then show ?case by simp
next
  case (Cons p gs)
  obtain m g where p: "p = (m, g)" by (cases p)
  have dist: "distinct (map doc_id g)" "distinct (concat (map (\<lambda>p. map doc_id (snd p)) gs))"
    and disj: "\<forall>q\<in>set gs. doc_id ` set g \<inter> doc_id ` set (snd q) = {}"
    using Cons.prems(2) p by auto
  show ?case
  proof (cases "length g > 1")
    case False
    then show ?thesis using Cons.IH[OF Cons.prems(1) dist(2), of f r] Cons.prems(3) p by simp
  next
    case True
    then have gne: "g \<noteq> []" by auto
    let ?w1 = "w\<lparr>docs := merged_docs g (clock w) (docs w)\<rparr>"
    have mg: "merge_group g (f, r) w = (Inr (f + 1, r + (length g - 1)), ?w1)"
      using Cons.prems p gne dist(1) by (intro merge_group_served) auto
    have sub: "\<forall>q\<in>set gs. doc_id ` set (snd q) \<subseteq> doc_id ` set (docs ?w1)"
    proof
      fix q assume q: "q \<in> set gs"
      have "doc_id ` set (snd q) \<subseteq> doc_id ` set (docs w)" using Cons.prems(3) q by simp
      moreover have "doc_id ` set (snd q) \<inter> doc_id ` set (tl (sortedDocs_of g)) = {}"
        using disj q deleted_in_group[of g] by blast
      ultimately show "doc_id ` set (snd q) \<subseteq> doc_id ` set (docs ?w1)"
        by (simp add: merged_docs_ids) blast
    qed
    obtain f' r' where "process_groups gs (f + 1, r + (length g - 1)) ?w1
        = (Inr (f', r'), ?w1\<lparr>docs := merged_all gs (clock ?w1) (docs ?w1)\<rparr>)"
      using Cons.IH[OF _ dist(2) sub, of "f + 1" "r + (length g - 1)"] Cons.prems(1) by auto
    then show ?thesis using mg p True by simp
  qed
qed

lemma filter_absent_movie: "k \<notin> movie_id ` set ds \<Longrightarrow> filter (\<lambda>d. movie_id d = k) ds = []"
  by (induction ds) auto

lemma new_key_keys: "map fst (new_key m gs) \<in> {xs. set xs = insert m (set (map fst gs))}"
  by (induction m gs rule: new_key.induct) auto

lemma new_key_distinct:
  "m \<notin> set (map fst gs) \<Longrightarrow> distinct (map fst gs) \<Longrightarrow> distinct (map fst (new_key m gs))"
proof (induction m gs rule: new_key.induct)
  case (1 m)
  then show ?case by simp
next
  case (2 m k g rest)
  have "set (map fst (new_key m rest)) = insert m (set (map fst rest))"
    using new_key_keys[of m rest] by simp
  then show ?case using 2 by auto
qed

lemma new_key_map_of:
  "m \<notin> set (map fst gs) \<Longrightarrow> map_of (new_key m gs) = (map_of gs)(m \<mapsto> [])"
  by (induction m gs rule: new_key.induct) (auto simp: fun_eq_iff)

lemma push_map_keys:
  "map fst (map (\<lambda>(k, g). if k = m then (k, g @ [d]) else (k, g)) gs) = map fst gs"
  by (induction gs) auto

lemma push_map_of:
  "map_of (map (\<lambda>(k, g). if k = m then (k, g @ [d]) else (k, g)) gs) k
   = (case map_of gs k of None \<Rightarrow> None | Some g \<Rightarrow> Some (if k = m then g @ [d] else g))"
  by (induction gs) auto

lemma group_push_distinct_keys:
  assumes "distinct (map fst gs)"
  shows "distinct (map fst (group_push d gs))"
proof -
  have "map fst (group_push d gs)
      = map fst (if movie_id d \<in> set (map fst gs) then gs else new_key (movie_id d) gs)"
    unfolding group_push_def by (rule push_map_keys)
  then show ?thesis
    using assms new_key_distinct[of "movie_id d" gs] by (cases "movie_id d \<in> set (map fst gs)") simp_all
qed

lemma group_push_map_of:
  "map_of (group_push d gs) =
     (map_of gs)(movie_id d \<mapsto> (case map_of gs (movie_id d) of None \<Rightarrow> [d] | Some g \<Rightarrow> g @ [d]))"
proof (cases "movie_id d \<in> set (map fst gs)")
  case True
  then obtain g where "map_of gs (movie_id d) = Some g"
    by (metis map_of_eq_None_iff not_None_eq set_map)
  then show ?thesis
    using True by (auto simp: group_push_def push_map_of fun_eq_iff split: option.splits)
next
  case False
  then have "map_of gs (movie_id d) = None"
    by (simp add: map_of_eq_None_iff)
  then show ?thesis
    using False
    by (auto simp: group_push_def push_map_of new_key_map_of fun_eq_iff simp del: set_map
        split: option.splits)
qed

lemma movieGroups_snoc: "movieGroups_of (ds @ [d]) = group_push d (movieGroups_of ds)"
  by (simp add: movieGroups_of_def)

lemma movieGroups_map_of:
  "distinct (map fst (movieGroups_of ds)) \<and>
   map_of (movieGroups_of ds) m =
     (if m \<in> movie_id ` set ds then Some (filter (\<lambda>d. movie_id d = m) ds) else None)"
proof (induction ds arbitrary: m rule: rev_induct)
  case Nil
  then show ?case by (simp add: movieGroups_of_def)
next
  case (snoc d ds)
  have s: "distinct (map fst (movieGroups_of ds))" using snoc by simp
  have m: "\<And>m. map_of (movieGroups_of ds) m =
     (if m \<in> movie_id ` set ds then Some (filter (\<lambda>d. movie_id d = m) ds) else None)"
    using snoc by simp
  show ?case
    using group_push_distinct_keys[OF s, of d]
    by (auto simp: movieGroups_snoc group_push_map_of m filter_absent_movie)
qed

lemma movieGroups_member:
  "(m, g) \<in> set (movieGroups_of ds) \<longleftrightarrow>
   m \<in> movie_id ` set ds \<and> g = filter (\<lambda>d. movie_id d = m) ds"
proof -
  have "distinct (map fst (movieGroups_of ds))"
    using movieGroups_map_of[of ds] by simp
  then have "(m, g) \<in> set (movieGroups_of ds) \<longleftrightarrow> map_of (movieGroups_of ds) m = Some g"
    by simp
  then show ?thesis using movieGroups_map_of[of ds m] by auto
qed

lemma groups_distinct_ids:
  assumes "distinct (map doc_id ds)"
  shows "distinct (map fst gs) \<Longrightarrow>
   (\<forall>p\<in>set gs. snd p = filter (\<lambda>d. movie_id d = fst p) ds) \<Longrightarrow>
   distinct (concat (map (\<lambda>p. map doc_id (snd p)) gs))"
proof (induction gs)
  case Nil
  then show ?case by simp
next
  case (Cons p gs)
  have inj: "inj_on doc_id (set ds)" using assms by (simp add: distinct_map)
  have p: "snd p = filter (\<lambda>d. movie_id d = fst p) ds" using Cons.prems(2) by simp
  have "distinct (map doc_id (snd p))"
    unfolding p using assms by (rule distinct_map_filter)
  moreover have "distinct (concat (map (\<lambda>p. map doc_id (snd p)) gs))"
    using Cons by simp
  moreover have "set (map doc_id (snd p)) \<inter> set (concat (map (\<lambda>p. map doc_id (snd p)) gs)) = {}"
  proof (rule ccontr)
    assume "set (map doc_id (snd p)) \<inter> set (concat (map (\<lambda>p. map doc_id (snd p)) gs)) \<noteq> {}"
    then obtain x q y where x: "x \<in> set (snd p)" and q: "q \<in> set gs" and y: "y \<in> set (snd q)"
      and eq: "doc_id x = doc_id y"
      by auto
    have qd: "snd q = filter (\<lambda>d. movie_id d = fst q) ds" using Cons.prems(2) q by simp
    have "x \<in> set ds" "y \<in> set ds" "movie_id x = fst p" "movie_id y = fst q"
      using x y p qd by auto
    then have "fst p = fst q" using inj eq by (auto dest: inj_onD)
    moreover have "fst p \<notin> fst ` set gs" using Cons.prems(1) by simp
    ultimately show False using q by (metis imageI)
  qed
  ultimately show ?case by simp
qed

lemma movieGroups_distinct:
  assumes "distinct (map doc_id ds)"
  shows "distinct (concat (map (\<lambda>p. map doc_id (snd p)) (movieGroups_of ds)))"
proof (rule groups_distinct_ids[OF assms])
  show "distinct (map fst (movieGroups_of ds))" using movieGroups_map_of[of ds] by simp
  show "\<forall>p\<in>set (movieGroups_of ds). snd p = filter (\<lambda>d. movie_id d = fst p) ds"
  proof
    fix p assume "p \<in> set (movieGroups_of ds)"
    then have "(fst p, snd p) \<in> set (movieGroups_of ds)" by simp
    then show "snd p = filter (\<lambda>d. movie_id d = fst p) ds"
      by (simp only: movieGroups_member)
  qed
qed

lemma movieGroups_docs: "p \<in> set (movieGroups_of ds) \<Longrightarrow> set (snd p) \<subseteq> set ds"
proof -
  assume "p \<in> set (movieGroups_of ds)"
  then have "(fst p, snd p) \<in> set (movieGroups_of ds)" by simp
  then have "snd p = filter (\<lambda>d. movie_id d = fst p) ds" by (simp only: movieGroups_member)
  then show ?thesis by auto
qed








lemma select_limit: "select [Q_limit n] ds = take n ds"
  by (simp add: select_def)

lemma cleanup_served:
  assumes "faults w = []" "distinct (map doc_id (docs w))"
  shows "\<exists>f r. cleanupDuplicateMovies w =
     (Inr \<lparr>duplicatesFound = f, duplicatesRemoved = r, cleanup_error = None\<rparr>,
      w\<lparr>docs := merged_all (movieGroups_of (take 100 (docs w))) (clock w) (docs w)\<rparr>)"
proof -
  let ?L = "take 100 (docs w)"
  have dL: "distinct (map doc_id ?L)"
    using assms(2) by (simp add: take_map[symmetric] distinct_take)
  have sub: "\<forall>p\<in>set (movieGroups_of ?L). doc_id ` set (snd p) \<subseteq> doc_id ` set (docs w)"
  proof
    fix p assume "p \<in> set (movieGroups_of ?L)"
    then have "set (snd p) \<subseteq> set ?L" by (rule movieGroups_docs)
    then show "doc_id ` set (snd p) \<subseteq> doc_id ` set (docs w)"
      using set_take_subset[of 100 "docs w"] by blast
  qed
  obtain f r where "process_groups (movieGroups_of ?L) (0, 0) w
      = (Inr (f, r), w\<lparr>docs := merged_all (movieGroups_of ?L) (clock w) (docs w)\<rparr>)"
    using process_groups_served[OF assms(1) movieGroups_distinct[OF dL] sub, of 0 0] by auto
  then show ?thesis
    using assms(1)
    by (simp add: cleanupDuplicateMovies_def listDocuments_def remote_call_served select_limit)
qed


lemma merged_all_movie_ids:
  "map movie_id (merged_all gs t ds) = map movie_id (filter (\<lambda>d. doc_id d \<notin> deleted_ids gs) ds)"
proof -
  have "map snd (map (\<lambda>d. (doc_id d, movie_id d)) (merged_all gs t ds))
      = map snd (filter (\<lambda>p. fst p \<notin> deleted_ids gs) (map (\<lambda>d. (doc_id d, movie_id d)) ds))"
    by (simp only: merged_all_keys)
  then show ?thesis by (simp add: filter_map comp_def)
qed

lemma deleted_ids_member:
  "(m, g) \<in> set gs \<Longrightarrow> length g > 1 \<Longrightarrow> doc_id ` set (tl (sortedDocs_of g)) \<subseteq> deleted_ids gs"
proof (induction gs)
  case Nil
  then show ?case by simp
next
  case (Cons p gs)
  obtain m0 g0 where p: "p = (m0, g0)" by (cases p)
  show ?case
  proof (cases "(m, g) = (m0, g0)")
    case True
    then show ?thesis using Cons.prems(2) p by auto
  next
    case False
    then have "doc_id ` set (tl (sortedDocs_of g)) \<subseteq> deleted_ids gs"
      using Cons p by auto
    then show ?thesis using p by auto
  qed
qed

lemma two_members: "x \<in> set g \<Longrightarrow> y \<in> set g \<Longrightarrow> x \<noteq> y \<Longrightarrow> length g > 1"
  by (cases g; cases "tl g") auto

lemma survivor_is_kept:
  assumes "(m, g) \<in> set gs" "length g > 1" "d \<in> set g" "doc_id d \<notin> deleted_ids gs"
  shows "d = keepDoc_of g"
proof -
  have gne: "g \<noteq> []" using assms(2) by auto
  have "d \<notin> set (tl (sortedDocs_of g))"
    using deleted_ids_member[OF assms(1,2)] assms(4) by auto
  moreover have "d \<in> set (keepDoc_of g # tl (sortedDocs_of g))"
    using sortedDocs_split[OF gne] sortedDocs_set[of g] assms(3) by simp
  ultimately show ?thesis by simp
qed

lemma merged_all_distinct_movies:
  assumes "distinct (map doc_id ds)"
  shows "distinct (map movie_id (merged_all (movieGroups_of ds) t ds))"
proof -
  let ?gs = "movieGroups_of ds"
  let ?keep = "filter (\<lambda>d. doc_id d \<notin> deleted_ids ?gs) ds"
  have "distinct ds" using assms by (auto simp: distinct_map)
  then have dk: "distinct ?keep" by simp
  have "inj_on movie_id (set ?keep)"
  proof (rule inj_onI)
    fix x y assume x: "x \<in> set ?keep" and y: "y \<in> set ?keep" and eq: "movie_id x = movie_id y"
    show "x = y"
    proof (rule ccontr)
      assume ne: "x \<noteq> y"
      let ?g = "filter (\<lambda>d. movie_id d = movie_id x) ds"
      have mem: "(movie_id x, ?g) \<in> set ?gs"
        using x by (simp add: movieGroups_member)
      have xg: "x \<in> set ?g" and yg: "y \<in> set ?g" using x y eq by auto
      have big: "length ?g > 1" using two_members[OF xg yg ne] .
      have "x = keepDoc_of ?g" using survivor_is_kept[OF mem big xg] x by simp
      moreover have "y = keepDoc_of ?g" using survivor_is_kept[OF mem big yg] y by simp
      ultimately show False using ne by simp
    qed
  qed
  then have "distinct (map movie_id ?keep)" using dk by (simp add: distinct_map)
  then show ?thesis by (simp only: merged_all_movie_ids)
qed

lemma filter_distinct_movie:
  "distinct (map movie_id ds) \<Longrightarrow> length (filter (\<lambda>d. movie_id d = m) ds) \<le> 1"
  by (induction ds) (auto simp: filter_absent_movie)

lemma process_groups_singletons:
  "(\<forall>p\<in>set gs. length (snd p) \<le> 1) \<Longrightarrow> process_groups gs counters w = (Inr counters, w)"
  by (induction gs) auto

lemma cleanup_no_duplicates:
  assumes "faults w = []" "distinct (map movie_id (take 100 (docs w)))"
  shows "cleanupDuplicateMovies w =
     (Inr \<lparr>duplicatesFound = 0, duplicatesRemoved = 0, cleanup_error = None\<rparr>, w)"
proof -
  have "\<forall>p\<in>set (movieGroups_of (take 100 (docs w))). length (snd p) \<le> 1"
  proof
    fix p assume p: "p \<in> set (movieGroups_of (take 100 (docs w)))"
    then have "snd p = filter (\<lambda>d. movie_id d = fst p) (take 100 (docs w))"
      using movieGroups_member[of "fst p" "snd p" "take 100 (docs w)"] by simp
    then show "length (snd p) \<le> 1" using filter_distinct_movie[OF assms(2)] by simp
  qed
  then have "process_groups (movieGroups_of (take 100 (docs w))) (0, 0) w = (Inr (0, 0), w)"
    by (rule process_groups_singletons)
  then show ?thesis
    using assms(1)
    by (simp add: cleanupDuplicateMovies_def listDocuments_def remote_call_served select_limit)
qed


lemmas sample_defs = sample_world_def spec_example_def sample_doc_def last_or_empty_def

lemmas cleanup_defs = cleanupDuplicateMovies_def listDocuments_def remote_call_def select_def
  movieGroups_of_def group_push_def array_index_def merge_group_def updateDocument_def
  deleteDocument_def totalCount_of_def allSearchTerms_of_def sortedDocs_of_def doc_time_def
  count_or0_def double_of_def round_magnitude_def docTerms_def new_Set_def Let_def




text \<open>
  C5, as the code has it. For a collection of at most 100 documents with distinct
  identifiers, and with no call rejected in either pass, a second pass right after the
  first reports no group and no removal and leaves the whole collection, every kept
  document included, exactly as the first pass left it.
\<close>

theorem cleanup_twice:
  assumes "faults w = []"
    and "distinct (map doc_id (docs w))"
    and "length (docs w) \<le> 100"
  shows "cleanupDuplicateMovies (snd (cleanupDuplicateMovies w)) =
     (Inr \<lparr>duplicatesFound = 0, duplicatesRemoved = 0, cleanup_error = None\<rparr>,
      snd (cleanupDuplicateMovies w))"
proof -
  let ?gs = "movieGroups_of (docs w)"
  let ?w1 = "w\<lparr>docs := merged_all ?gs (clock w) (docs w)\<rparr>"
  have L: "take 100 (docs w) = docs w" using assms(3) by simp
  obtain f r where "cleanupDuplicateMovies w =
     (Inr \<lparr>duplicatesFound = f, duplicatesRemoved = r, cleanup_error = None\<rparr>, ?w1)"
    using cleanup_served[OF assms(1,2)] unfolding L by auto
  then have w1: "snd (cleanupDuplicateMovies w) = ?w1" by simp
  have "distinct (map movie_id (docs ?w1))"
    using merged_all_distinct_movies[OF assms(2)] by simp
  then have "distinct (map movie_id (take 100 (docs ?w1)))"
    by (simp add: take_map[symmetric] distinct_take del: world.simps)
  moreover have "faults ?w1 = []" using assms(1) by simp
  ultimately show ?thesis unfolding w1 by (rule cleanup_no_duplicates[rotated])
qed

theorem cleanup_twice_witness:
  "cleanupDuplicateMovies (snd (cleanupDuplicateMovies (sample_world spec_example []))) =
     (Inr \<lparr>duplicatesFound = 0, duplicatesRemoved = 0, cleanup_error = None\<rparr>,
      snd (cleanupDuplicateMovies (sample_world spec_example [])))"
  using cleanup_twice[of "sample_world spec_example []"]
  by (simp add: sample_defs)

text \<open>
  C5 as stated fails in two ways. In \<open>crowded_twice\<close> the first pass merges the two
  documents for movie 0; the collection then has 100 documents, the document that was
  the 101st comes into the listing, and the second pass removes one document for movie
  2. And when the last delete of a first pass over \<open>spec_example\<close> is rejected, two
  documents for movie 42 remain and the second pass removes one.
\<close>

theorem cleanup_twice_counterexample:
  "fst (cleanupDuplicateMovies (snd (cleanupDuplicateMovies (sample_world crowded_twice []))))
     = Inr \<lparr>duplicatesFound = 1, duplicatesRemoved = 1, cleanup_error = None\<rparr>
   \<and> fst (cleanupDuplicateMovies (snd (cleanupDuplicateMovies
       (sample_world spec_example [None, None, None, Some (JsError ''network'')]))))
     = Inr \<lparr>duplicatesFound = 1, duplicatesRemoved = 1, cleanup_error = None\<rparr>"
proof -
  have "fst (cleanupDuplicateMovies (snd (cleanupDuplicateMovies (sample_world crowded_twice []))))
     = Inr \<lparr>duplicatesFound = 1, duplicatesRemoved = 1, cleanup_error = None\<rparr>"
    by code_simp
  moreover have "fst (cleanupDuplicateMovies (snd (cleanupDuplicateMovies
       (sample_world spec_example [None, None, None, Some (JsError ''network'')]))))
     = Inr \<lparr>duplicatesFound = 1, duplicatesRemoved = 1, cleanup_error = None\<rparr>"
    by (simp add: sample_defs cleanup_defs)
  ultimately show ?thesis by simp
qed

text \<open>
  C9, as the code has it, for rejections with a value other than \<open>null\<close> and
  \<open>undefined\<close>. When the listing or any write is rejected, the pass does not reject: the
  \<open>catch\<close> resolves with \<open>duplicatesFound = 0\<close> and \<open>duplicatesRemoved = 0\<close> beside the
  error's message (none for a value that is no \<open>Error\<close>), whatever had been merged and
  removed before the failure; and in every result that carries an error message both
  counts are 0.
\<close>

theorem cleanup_failure_zeroed:
  "(listDocuments [Q_limit 100] w = (Inl e, w2)
      \<or> (listDocuments [Q_limit 100] w = (Inr documents, w1)
          \<and> process_groups (movieGroups_of documents) (0, 0) w1 = (Inl e, w2)) \<longrightarrow>
      (e = JsError msg \<longrightarrow>
         cleanupDuplicateMovies w =
           (Inr \<lparr>duplicatesFound = 0, duplicatesRemoved = 0, cleanup_error = Some msg\<rparr>, w2))
      \<and> (e = NonError \<longrightarrow>
         cleanupDuplicateMovies w =
           (Inr \<lparr>duplicatesFound = 0, duplicatesRemoved = 0, cleanup_error = None\<rparr>, w2)))
   \<and> (fst (cleanupDuplicateMovies w) = Inr r \<and> cleanup_error r \<noteq> None \<longrightarrow>
        duplicatesFound r = 0 \<and> duplicatesRemoved r = 0)"
proof -
  have z: "cleanup_catch x = Inr r \<Longrightarrow> duplicatesFound r = 0 \<and> duplicatesRemoved r = 0" for x
    by (cases x) auto
  show ?thesis
    by (auto simp: cleanupDuplicateMovies_def split: prod.splits sum.splits dest: z)
qed

theorem cleanup_failure_zeroed_witness:
  "cleanupDuplicateMovies (sample_world spec_example [Some (JsError ''offline'')]) =
     (Inr \<lparr>duplicatesFound = 0, duplicatesRemoved = 0, cleanup_error = Some ''offline''\<rparr>,
      sample_world spec_example [])
   \<and> cleanupDuplicateMovies (sample_world spec_example [None, Some NonError]) =
     (Inr \<lparr>duplicatesFound = 0, duplicatesRemoved = 0, cleanup_error = None\<rparr>,
      sample_world spec_example [])
   \<and> fst (cleanupDuplicateMovies
        (sample_world spec_example [None, None, None, Some (JsError ''network'')])) =
     Inr \<lparr>duplicatesFound = 0, duplicatesRemoved = 0, cleanup_error = Some ''network''\<rparr>"
proof -
  let ?W1 = "sample_world spec_example [Some (JsError ''offline'')]"
  let ?W2 = "sample_world spec_example [None, Some NonError]"
  let ?W3 = "sample_world spec_example [None, None, None, Some (JsError ''network'')]"
  have l1: "listDocuments [Q_limit 100] ?W1 = (Inl (JsError ''offline''), sample_world spec_example [])"
    by (simp add: listDocuments_def remote_call_def sample_world_def)
  have l2: "listDocuments [Q_limit 100] ?W2 = (Inr spec_example, sample_world spec_example [Some NonError])"
    by (simp add: listDocuments_def remote_call_def sample_world_def select_def spec_example_def)
  have p2: "process_groups (movieGroups_of spec_example) (0, 0) (sample_world spec_example [Some NonError])
      = (Inl NonError, sample_world spec_example [])"
    by (simp add: sample_defs cleanup_defs)
  obtain r where r: "fst (cleanupDuplicateMovies ?W3) = Inr r" "cleanup_error r = Some ''network''"
    by (simp add: sample_defs cleanup_defs)
  have "duplicatesFound r = 0 \<and> duplicatesRemoved r = 0"
    using cleanup_failure_zeroed[of ?W3 _ _ _ _ _ r] r by simp
  then have r3: "r = \<lparr>duplicatesFound = 0, duplicatesRemoved = 0, cleanup_error = Some ''network''\<rparr>"
    using r(2) by (cases r) simp
  have c1: "cleanupDuplicateMovies ?W1 =
     (Inr \<lparr>duplicatesFound = 0, duplicatesRemoved = 0, cleanup_error = Some ''offline''\<rparr>,
      sample_world spec_example [])"
    using cleanup_failure_zeroed[of ?W1 "JsError ''offline''" "sample_world spec_example []" _ _
        "''offline''"] l1
    by simp
  have c2: "cleanupDuplicateMovies ?W2 =
     (Inr \<lparr>duplicatesFound = 0, duplicatesRemoved = 0, cleanup_error = None\<rparr>,
      sample_world spec_example [])"
    using cleanup_failure_zeroed[of ?W2 NonError "sample_world spec_example []" spec_example
        "sample_world spec_example [Some NonError]"] l2 p2
    by simp
  show ?thesis using c1 c2 r(1) r3 by simp
qed

text \<open>
  C9 as stated fails. The pass over \<open>spec_example\<close> merges the group into document 2 and
  deletes document 3; the delete of document 1 is rejected. One group has been processed
  and one document removed, and the result reports 0 and 0.
\<close>

theorem cleanup_failure_counterexample:
  "fst (cleanupDuplicateMovies (sample_world spec_example [None, None, None, Some (JsError ''network'')]))
     = Inr \<lparr>duplicatesFound = 0, duplicatesRemoved = 0, cleanup_error = Some ''network''\<rparr>
   \<and> map doc_id (docs (snd (cleanupDuplicateMovies
        (sample_world spec_example [None, None, None, Some (JsError ''network'')])))) = [1, 2]
   \<and> map count (docs (snd (cleanupDuplicateMovies
        (sample_world spec_example [None, None, None, Some (JsError ''network'')])))) = [Some 3, Some 6]
   \<and> map doc_id spec_example = [1, 2, 3]"
  by (simp add: sample_defs cleanup_defs)

end
